theory Spec2Isabelle
  imports Main "HOL-Library.Word"
begin

section \<open>List-of-lists storage of NMatrix (ext/nmatrix/storage/list.cpp)\<close>

subsection \<open>Data model\<close>

text \<open>
  A \<^verbatim>\<open>NODE\<close> has a \<^verbatim>\<open>size_t key\<close>, a \<^verbatim>\<open>void* val\<close> and a \<^verbatim>\<open>next\<close> link; a
  \<^verbatim>\<open>LIST\<close> is the chain of nodes hanging from \<^verbatim>\<open>first\<close>. The untyped \<^verbatim>\<open>val\<close>
  points either to a scalar (leaf level) or to a nested \<^verbatim>\<open>LIST\<close> (intermediate
  level); the embedding tags the two cases. A chain of nodes is the HOL list of its
  nodes in link order, so \<^verbatim>\<open>l->first == NULL\<close> is \<open>l = []\<close>.
\<close>

datatype 'a nval = Scalar 'a | Sub "(nat \<times> 'a nval) list"

type_synonym 'a NODE = "nat \<times> 'a nval"
type_synonym 'a LIST = "'a NODE list"

record 'a LIST_STORAGE =
  dtype :: nat
  rank :: nat
  shape :: "nat list"
  default_val :: 'a
  rows :: "'a LIST"

record SLICE =
  coords :: "nat list"

text \<open>
  \<open>NotImpError\<close> is Ruby's \<^verbatim>\<open>rb_eNotImpError\<close>, raised by \<^verbatim>\<open>rb_raise\<close>.
  \<open>Undefined\<close> marks the places where the C code has no defined behaviour and the
  embedding stops: a \<^verbatim>\<open>val\<close> that points to a scalar is followed as a \<^verbatim>\<open>LIST*\<close>, a
  pointer is followed to a list that is no longer linked, an array is read past its
  end, or memory that \<^verbatim>\<open>malloc\<close> did not return is passed to \<^verbatim>\<open>free\<close>.
\<close>

datatype error = NotImpError | Undefined

subsection \<open>The list primitives of util/sl\_list\<close>

text \<open>Modelled from the spec: \<^verbatim>\<open>list_create\<close> of util/sl\_list (section 4.1:
  "returns an empty list").\<close>

definition list_create :: "'a LIST" where
  "list_create = []"

text \<open>Modelled from the spec: \<^verbatim>\<open>list_find\<close> of util/sl\_list (section 4.1: "returns
  the node with matching key, else not found; never mutates").\<close>

fun list_find :: "'a LIST \<Rightarrow> nat \<Rightarrow> 'a NODE option" where
  "list_find [] k = None"
| "list_find (n # ns) k = (if fst n = k then Some n else list_find ns k)"

text \<open>Modelled from the spec: \<^verbatim>\<open>list_insert\<close> of util/sl\_list (section 4.1: "inserts
  preserving ascending order"; with \<open>replace = False\<close>, find-or-create, it "returns the
  existing node if the key is already present, otherwise links a new node holding
  value"; with \<open>replace = True\<close>, overwrite, it "always installs value at key, replacing
  any prior value"; it "returns the resulting node"). The result is the node and the
  list after the call.\<close>

fun list_insert :: "'a LIST \<Rightarrow> bool \<Rightarrow> nat \<Rightarrow> 'a nval \<Rightarrow> 'a NODE \<times> 'a LIST" where
  "list_insert [] replace k v = ((k, v), [(k, v)])"
| "list_insert (n # ns) replace k v =
     (if k < fst n then ((k, v), (k, v) # n # ns)
      else if k = fst n then
        (if replace then ((k, v), (k, v) # ns) else (n, n # ns))
      else (case list_insert ns replace k v of (r, ns') \<Rightarrow> (r, n # ns')))"

text \<open>Modelled from the spec: \<^verbatim>\<open>list_insert_after\<close> of util/sl\_list (section 4.1:
  "links a new node immediately following prev\_node"). The node \<^verbatim>\<open>prev\<close> is named by
  its key \<open>pk\<close>; the result is the new node and the list after the call.\<close>

fun list_insert_after :: "'a LIST \<Rightarrow> nat \<Rightarrow> nat \<Rightarrow> 'a nval \<Rightarrow> 'a NODE \<times> 'a LIST" where
  "list_insert_after [] pk k v = ((k, v), [])"
| "list_insert_after (n # ns) pk k v =
     (if fst n = pk then ((k, v), n # (k, v) # ns)
      else (case list_insert_after ns pk k v of (r, ns') \<Rightarrow> (r, n # ns')))"

text \<open>Modelled from the spec: \<^verbatim>\<open>list_remove\<close> of util/sl\_list (section 4.1: "detaches
  and returns the owned value at key if present, else returns not found; does not
  recurse into nested structure"). \<open>None\<close> is the \<^verbatim>\<open>NULL\<close> of "not found".\<close>

fun list_remove :: "'a LIST \<Rightarrow> nat \<Rightarrow> 'a nval option \<times> 'a LIST" where
  "list_remove [] k = (None, [])"
| "list_remove (n # ns) k =
     (if fst n = k then (Some (snd n), ns)
      else (case list_remove ns k of (r, ns') \<Rightarrow> (r, n # ns')))"

subsection \<open>Lifecycle\<close>

definition list_storage_create :: "nat \<Rightarrow> nat list \<Rightarrow> nat \<Rightarrow> 'a \<Rightarrow> 'a LIST_STORAGE" where
  "list_storage_create dt shp rnk init_val =
     \<lparr> dtype = dt, rank = rnk, shape = shp, default_val = init_val, rows = list_create \<rparr>"

subsection \<open>Accessors\<close>

text \<open>
  Every accessor returns its result together with the storage after the call, so that
  what the call wrote is part of the model. \<^verbatim>\<open>list_storage_get\<close> raises at once.
\<close>

definition list_storage_get ::
  "'a LIST_STORAGE \<Rightarrow> SLICE \<Rightarrow> (error + 'a nval) \<times> 'a LIST_STORAGE" where
  "list_storage_get s sl = (Inl NotImpError, s)"

text \<open>\<^verbatim>\<open>slice->coords[i]\<close>; reading past the end of the array is undefined.\<close>

definition coord_at :: "SLICE \<Rightarrow> nat \<Rightarrow> nat option" where
  "coord_at sl i = (if i < length (coords sl) then Some (coords sl ! i) else None)"

text \<open>
  \<^verbatim>\<open>list_storage_ref\<close>: the loop \<^verbatim>\<open>for (r = s->rank; r > 1; --r)\<close>, with the code
  after the loop as the branch taken when \<^verbatim>\<open>r > 1\<close> fails. The lookup only reads, so
  the current list \<^verbatim>\<open>l\<close> is carried as a value. A \<^verbatim>\<open>void*\<close> result is the tagged
  value it points to; the default scalar is returned as \<open>Scalar (default_val s)\<close>.
\<close>

fun ref_loop :: "'a LIST_STORAGE \<Rightarrow> SLICE \<Rightarrow> nat \<Rightarrow> 'a LIST \<Rightarrow> error + 'a nval" where
  "ref_loop s sl r l =
     (if 1 < r then
        (case coord_at sl (rank s - r) of
           None \<Rightarrow> Inl Undefined
         | Some k \<Rightarrow>
             (case list_find l k of
                Some n \<Rightarrow>
                  (case snd n of
                     Sub l' \<Rightarrow> ref_loop s sl (r - 1) l'
                   | Scalar x \<Rightarrow> Inl Undefined)
              | None \<Rightarrow> Inr (Scalar (default_val s))))
      else
        (case coord_at sl (rank s - r) of
           None \<Rightarrow> Inl Undefined
         | Some k \<Rightarrow>
             (case list_find l k of
                Some n \<Rightarrow> Inr (snd n)
              | None \<Rightarrow> Inr (Scalar (default_val s)))))"

definition list_storage_ref ::
  "'a LIST_STORAGE \<Rightarrow> SLICE \<Rightarrow> (error + 'a nval) \<times> 'a LIST_STORAGE" where
  "list_storage_ref s sl = (ref_loop s sl (rank s) (rows s), s)"

subsection \<open>Pointers into the node graph\<close>

text \<open>
  Insertion and removal write through \<^verbatim>\<open>LIST*\<close> pointers obtained while walking
  down from \<^verbatim>\<open>s->rows\<close>. Every list is owned by exactly one node, so a pointer to a
  list reachable from the root is modelled by the keys on the way to it: \<open>[]\<close> is
  \<^verbatim>\<open>s->rows\<close> itself, and \<open>p @ [k]\<close> is \<^verbatim>\<open>n->val\<close> for the node \<^verbatim>\<open>n\<close> with key \<open>k\<close>
  in the list at \<open>p\<close>. \<open>list_at\<close> reads the list a pointer points to (\<open>None\<close> when the
  pointer dangles or passes through a scalar), and \<open>list_put\<close> is the effect on the
  root of overwriting that list in place.
\<close>

fun list_at :: "'a LIST \<Rightarrow> nat list \<Rightarrow> 'a LIST option" where
  "list_at root [] = Some root"
| "list_at root (k # p) =
     (case list_find root k of
        None \<Rightarrow> None
      | Some n \<Rightarrow> (case snd n of Sub sub \<Rightarrow> list_at sub p | Scalar x \<Rightarrow> None))"

fun list_put :: "'a LIST \<Rightarrow> nat list \<Rightarrow> 'a LIST \<Rightarrow> 'a LIST" where
  "list_put root [] new = new"
| "list_put [] (k # p) new = []"
| "list_put (n # ns) (k # p) new =
     (if fst n = k then
        (case snd n of
           Sub sub \<Rightarrow> (fst n, Sub (list_put sub p new)) # ns
         | Scalar x \<Rightarrow> n # ns)
      else n # list_put ns (k # p) new)"

text \<open>
  \<^verbatim>\<open>list_storage_insert\<close>: \<open>l\<close> is the pointer \<^verbatim>\<open>l\<close>, \<open>root\<close> the node graph under
  \<^verbatim>\<open>s->rows\<close> as written so far. \<^verbatim>\<open>l = n->val\<close> becomes \<open>l @ [fst n]\<close>.
\<close>

fun insert_loop ::
  "'a LIST_STORAGE \<Rightarrow> SLICE \<Rightarrow> 'a \<Rightarrow> nat \<Rightarrow> nat list \<Rightarrow> 'a LIST \<Rightarrow> error + ('a nval \<times> 'a LIST)" where
  "insert_loop s sl v r l root =
     (if 1 < r then
        (case coord_at sl (rank s - r) of
           None \<Rightarrow> Inl Undefined
         | Some k \<Rightarrow>
             (case list_at root l of
                None \<Rightarrow> Inl Undefined
              | Some cur \<Rightarrow>
                  (case list_insert cur False k (Sub list_create) of
                     (n, cur') \<Rightarrow>
                       insert_loop s sl v (r - 1) (l @ [fst n]) (list_put root l cur'))))
      else
        (case coord_at sl (rank s - r) of
           None \<Rightarrow> Inl Undefined
         | Some k \<Rightarrow>
             (case list_at root l of
                None \<Rightarrow> Inl Undefined
              | Some cur \<Rightarrow>
                  (case list_insert cur True k (Scalar v) of
                     (n, cur') \<Rightarrow> Inr (snd n, list_put root l cur')))))"

definition list_storage_insert ::
  "'a LIST_STORAGE \<Rightarrow> SLICE \<Rightarrow> 'a \<Rightarrow> (error + 'a nval) \<times> 'a LIST_STORAGE" where
  "list_storage_insert s sl v =
     (case insert_loop s sl v (rank s) [] (rows s) of
        Inl e \<Rightarrow> (Inl e, s)
      | Inr (res, root) \<Rightarrow> (Inr res, s\<lparr>rows := root\<rparr>))"

text \<open>
  \<^verbatim>\<open>list_storage_remove\<close>. \<open>stack\<close> is the array \<^verbatim>\<open>NODE** stack\<close> of \<^verbatim>\<open>s->rank - 1\<close>
  entries, not initialised (\<open>None\<close>); the code reads a stacked node only through
  \<^verbatim>\<open>stack[r]->val\<close>, so an entry holds the pointer \<^verbatim>\<open>n->val\<close>.

  \<open>prune_loop\<close> is the second loop, \<^verbatim>\<open>for (r = (int)(s->rank) - 2; r >= 0; --r)\<close>:
  when the list \<^verbatim>\<open>stack[r]->val\<close> is empty it calls
  \<^verbatim>\<open>list_remove(stack[r]->val, slice->coords[r])\<close> and frees what that returns,
  otherwise it breaks.
\<close>

function prune_loop ::
  "SLICE \<Rightarrow> nat list option list \<Rightarrow> int \<Rightarrow> 'a LIST \<Rightarrow> error + 'a LIST" where
  "prune_loop sl stack r root =
     (if 0 \<le> r then
        (if nat r < length stack then
           (case stack ! nat r of
              None \<Rightarrow> Inl Undefined
            | Some p \<Rightarrow>
                (case list_at root p of
                   None \<Rightarrow> Inl Undefined
                 | Some lst \<Rightarrow>
                     if lst = [] then
                       (case coord_at sl (nat r) of
                          None \<Rightarrow> Inl Undefined
                        | Some k \<Rightarrow>
                            (case list_remove lst k of
                               (freed, lst') \<Rightarrow>
                                 prune_loop sl stack (r - 1) (list_put root p lst')))
                     else Inr root))
         else Inl Undefined)
      else Inr root)"
  by pat_completeness auto
termination
  by (relation "measure (\<lambda>(sl, stack, r, root). nat (r + 1))") auto

text \<open>
  The first loop, \<^verbatim>\<open>for (r = (int)(s->rank); r > 1; --r)\<close>; the code after it removes
  the leaf (\<open>None\<close> is the \<^verbatim>\<open>NULL\<close> of "not found") and prunes. When a node is missing
  the loop runs \<^verbatim>\<open>free(stack); return NULL;\<close>. The array \<^verbatim>\<open>stack\<close> comes from
  \<^verbatim>\<open>ALLOCA_N\<close>, Ruby's \<^verbatim>\<open>alloca\<close>: it lies in the stack frame, and passing it to
  \<^verbatim>\<open>free\<close> is undefined, so the call ends there and never gets to return \<^verbatim>\<open>NULL\<close>.
\<close>

fun remove_loop ::
  "'a LIST_STORAGE \<Rightarrow> SLICE \<Rightarrow> nat \<Rightarrow> nat list \<Rightarrow> nat list option list \<Rightarrow> 'a LIST \<Rightarrow>
     error + ('a nval option \<times> 'a LIST)" where
  "remove_loop s sl r l stack root =
     (if 1 < r then
        (case coord_at sl (rank s - r) of
           None \<Rightarrow> Inl Undefined
         | Some k \<Rightarrow>
             (case list_at root l of
                None \<Rightarrow> Inl Undefined
              | Some cur \<Rightarrow>
                  (case list_find cur k of
                     None \<Rightarrow> Inl Undefined
                   | Some n \<Rightarrow>
                       if rank s - r < length stack then
                         remove_loop s sl (r - 1) (l @ [fst n])
                           (stack[rank s - r := Some (l @ [fst n])]) root
                       else Inl Undefined)))
      else
        (case coord_at sl (rank s - r) of
           None \<Rightarrow> Inl Undefined
         | Some k \<Rightarrow>
             (case list_at root l of
                None \<Rightarrow> Inl Undefined
              | Some cur \<Rightarrow>
                  (case list_remove cur k of
                     (rm, cur') \<Rightarrow>
                       if rm \<noteq> None then
                         (case prune_loop sl stack (int (rank s) - 2) (list_put root l cur') of
                            Inl e \<Rightarrow> Inl e
                          | Inr root' \<Rightarrow> Inr (rm, root'))
                       else Inr (rm, list_put root l cur')))))"

definition list_storage_remove ::
  "'a LIST_STORAGE \<Rightarrow> SLICE \<Rightarrow> (error + 'a nval option) \<times> 'a LIST_STORAGE" where
  "list_storage_remove s sl =
     (case remove_loop s sl (rank s) [] (replicate (rank s - 1) None) (rows s) of
        Inl e \<Rightarrow> (Inl e, s)
      | Inr (rm, root) \<Rightarrow> (Inr rm, s\<lparr>rows := root\<rparr>))"

subsection \<open>Tests\<close>







subsection \<open>Utility\<close>

text \<open>
  \<^verbatim>\<open>count_list_storage_nd_elements\<close>: the inner loop over \<^verbatim>\<open>j_curr\<close> and the outer
  loop over \<^verbatim>\<open>i_curr\<close>, each with the running \<^verbatim>\<open>count\<close>.
\<close>

fun count_nd_row :: "nat \<Rightarrow> 'a LIST \<Rightarrow> nat \<Rightarrow> nat" where
  "count_nd_row i [] count = count"
| "count_nd_row i (j_curr # js) count =
     count_nd_row i js (if i \<noteq> fst j_curr then count + 1 else count)"

fun count_nd_rows :: "'a LIST \<Rightarrow> nat \<Rightarrow> error + nat" where
  "count_nd_rows [] count = Inr count"
| "count_nd_rows (i_curr # is) count =
     (case snd i_curr of
        Sub row \<Rightarrow> count_nd_rows is (count_nd_row (fst i_curr) row count)
      | Scalar x \<Rightarrow> Inl Undefined)"

definition count_list_storage_nd_elements ::
  "'a LIST_STORAGE \<Rightarrow> (error + nat) \<times> 'a LIST_STORAGE" where
  "count_list_storage_nd_elements s =
     (if rank s \<noteq> 2 then (Inl NotImpError, s)
      else (count_nd_rows (rows s) 0, s))"

subsection \<open>Copying\<close>




subsection \<open>Invariants of the data model\<close>

text \<open>
  \<open>wf_val d v\<close>: the value \<open>v\<close> sits above \<open>d\<close> list levels (a scalar has none), and in
  every list the keys are strictly increasing. \<open>wf_list d l\<close> is the same for a list
  whose nodes have \<open>d\<close> levels below them, the \<^verbatim>\<open>recursions\<close> of the source; a storage
  is well formed when its rank is at least 1 and the root list has \<open>rank - 1\<close> levels
  below it.
\<close>

fun wf_val :: "nat \<Rightarrow> 'a nval \<Rightarrow> bool" where
  "wf_val d (Scalar x) = (d = 0)"
| "wf_val d (Sub l) =
     (0 < d \<and> sorted_wrt (<) (map fst l) \<and> list_all (\<lambda>n. wf_val (d - 1) (snd n)) l)"

definition wf_list :: "nat \<Rightarrow> 'a LIST \<Rightarrow> bool" where
  "wf_list d l = wf_val (Suc d) (Sub l)"

definition wf_storage :: "'a LIST_STORAGE \<Rightarrow> bool" where
  "wf_storage s = (1 \<le> rank s \<and> wf_list (rank s - 1) (rows s))"

text \<open>The pruning invariant: no nested list is empty (the root list may be).\<close>

fun pruned_val :: "'a nval \<Rightarrow> bool" where
  "pruned_val (Scalar x) = True"
| "pruned_val (Sub l) = (l \<noteq> [] \<and> list_all (\<lambda>n. pruned_val (snd n)) l)"

definition no_empty_branch :: "'a LIST \<Rightarrow> bool" where
  "no_empty_branch root = list_all (\<lambda>n. pruned_val (snd n)) root"

text \<open>The value stored under a whole coordinate tuple, if its node chain exists.\<close>

fun stored_at :: "'a LIST \<Rightarrow> nat list \<Rightarrow> 'a nval option" where
  "stored_at l [] = None"
| "stored_at l [k] = map_option snd (list_find l k)"
| "stored_at l (k # k' # ks) =
     (case list_find l k of
        None \<Rightarrow> None
      | Some n \<Rightarrow> (case snd n of Sub sub \<Rightarrow> stored_at sub (k' # ks) | Scalar x \<Rightarrow> None))"

text \<open>The key pairs (row, column) of the nodes stored in a rank-2 node graph.\<close>

definition stored_keys :: "'a LIST \<Rightarrow> (nat \<times> nat) list" where
  "stored_keys root =
     concat (map (\<lambda>n. case snd n of
                         Sub row \<Rightarrow> map (\<lambda>m. (fst n, fst m)) row
                       | Scalar x \<Rightarrow> []) root)"



subsection \<open>The node graph after insertion and removal\<close>

text \<open>
  What the loops of \<^verbatim>\<open>list_storage_insert\<close> and \<^verbatim>\<open>list_storage_remove\<close> compute on
  the node graph, written as recursions over the coordinate tuple; the loops are
  shown below to compute exactly these. \<open>tree_insert\<close> finds or creates the node of
  each coordinate and overwrites the leaf; \<open>tree_remove\<close> follows existing nodes only,
  removes the leaf node and keeps every list on the way, emptied or not (it is what
  \<^verbatim>\<open>list_storage_remove\<close> computes when the nodes above the leaf exist).
\<close>

fun tree_insert :: "'a LIST \<Rightarrow> nat list \<Rightarrow> 'a \<Rightarrow> 'a LIST" where
  "tree_insert l [] v = l"
| "tree_insert l [k] v = snd (list_insert l True k (Scalar v))"
| "tree_insert l (k # k' # ks) v =
     (case list_insert l False k (Sub list_create) of
        (n, l') \<Rightarrow>
          (case snd n of
             Sub sub \<Rightarrow> list_put l' [k] (tree_insert sub (k' # ks) v)
           | Scalar x \<Rightarrow> l'))"

fun tree_remove :: "'a LIST \<Rightarrow> nat list \<Rightarrow> 'a nval option \<times> 'a LIST" where
  "tree_remove l [] = (None, l)"
| "tree_remove l [k] = list_remove l k"
| "tree_remove l (k # k' # ks) =
     (case list_find l k of
        None \<Rightarrow> (None, l)
      | Some n \<Rightarrow>
          (case snd n of
             Sub sub \<Rightarrow>
               (case tree_remove sub (k' # ks) of (rm, sub') \<Rightarrow> (rm, list_put l [k] sub'))
           | Scalar x \<Rightarrow> (None, l)))"

text \<open>A history of calls on a storage: each call continues with the storage the
  previous one left, and the history ends at the first call that does not return.\<close>

datatype 'a call = Insert "nat list" 'a | Remove "nat list"

fun apply_call :: "'a LIST_STORAGE \<Rightarrow> 'a call \<Rightarrow> error + 'a LIST_STORAGE" where
  "apply_call s (Insert c v) =
     (case list_storage_insert s \<lparr>coords = c\<rparr> v of
        (Inl e, s') \<Rightarrow> Inl e
      | (Inr res, s') \<Rightarrow> Inr s')"
| "apply_call s (Remove c) =
     (case list_storage_remove s \<lparr>coords = c\<rparr> of
        (Inl e, s') \<Rightarrow> Inl e
      | (Inr res, s') \<Rightarrow> Inr s')"

fun run_calls :: "'a LIST_STORAGE \<Rightarrow> 'a call list \<Rightarrow> error + 'a LIST_STORAGE" where
  "run_calls s [] = Inr s"
| "run_calls s (cl # cls) =
     (case apply_call s cl of
        Inl e \<Rightarrow> Inl e
      | Inr s' \<Rightarrow> run_calls s' cls)"

fun call_coords :: "'a call \<Rightarrow> nat list" where
  "call_coords (Insert c v) = c"
| "call_coords (Remove c) = c"

fun inserts_at :: "nat list \<Rightarrow> 'a call \<Rightarrow> bool" where
  "inserts_at c (Insert c' v) = (c' = c)"
| "inserts_at c (Remove c') = False"

subsection \<open>Dense-to-list construction\<close>

text \<open>
  \<^verbatim>\<open>list_storage_cast_copy_contents_dense_template\<close>. \<open>cast\<close> is
  \<^verbatim>\<open>static_cast<LDType>\<close>; \<open>pos\<close> is the \<^verbatim>\<open>size_t& pos\<close>, a 64-bit word, because the
  final \<^verbatim>\<open>--pos\<close> wraps when nothing was read; \<open>crds\<close> and \<open>shp\<close> are the arrays
  \<^verbatim>\<open>coords\<close> and \<^verbatim>\<open>shape\<close>, \<open>rnk\<close> is \<^verbatim>\<open>rank\<close>. \<open>zero\<close> is the pointer
  \<^verbatim>\<open>RDType* zero\<close>, an address, and the test \<^verbatim>\<open>rhs[pos] != zero\<close> compares the element
  with that pointer, not with the value it points to; \<open>ne\<close> is this \<^verbatim>\<open>!=\<close> between an
  \<^verbatim>\<open>RDType\<close> and an \<^verbatim>\<open>RDType*\<close>, which the element type decides and the file does not
  define. \<^verbatim>\<open>prev\<close> is the key of the node it points to, \<open>None\<close> while it is not
  initialised.
\<close>

text \<open>The branch \<^verbatim>\<open>recursions == 0\<close> ("create nodes") of the loop body: \<open>key\<close> is
  \<^verbatim>\<open>coords[rank-1-recursions]\<close>; the result is the list, \<^verbatim>\<open>prev\<close> and \<^verbatim>\<open>added\<close> after
  it. Reading \<^verbatim>\<open>rhs\<close> past its end and using \<^verbatim>\<open>prev\<close> before it is set are
  undefined.\<close>

definition dense_nodes ::
  "('r \<Rightarrow> nat \<Rightarrow> bool) \<Rightarrow> ('r \<Rightarrow> 'l) \<Rightarrow> 'r list \<Rightarrow> nat \<Rightarrow> nat \<Rightarrow> 'l LIST \<Rightarrow> 64 word \<Rightarrow>
     nat option \<Rightarrow> bool \<Rightarrow> error + ('l LIST \<times> nat option \<times> bool)" where
  "dense_nodes ne cast rhs zero key lhs pos prev added =
     (if unat pos < length rhs then
        (if ne (rhs ! unat pos) zero then
           (if lhs = [] then
              (case list_insert lhs False key (Scalar (cast (rhs ! unat pos))) of
                 (n, lhs') \<Rightarrow> Inr (lhs', Some (fst n), True))
            else
              (case prev of
                 None \<Rightarrow> Inl Undefined
               | Some pk \<Rightarrow>
                   (case list_insert_after lhs pk key (Scalar (cast (rhs ! unat pos))) of
                      (n, lhs') \<Rightarrow> Inr (lhs', Some (fst n), True))))
         else Inr (lhs, prev, added))
      else Inl Undefined)"

text \<open>The branch "create lists" after the recursive call returned \<open>added_list\<close> and
  the candidate \<open>sub_list\<close>: the candidate is dropped (\<^verbatim>\<open>list_delete\<close>) or linked into
  \<open>lhs\<close>. \<open>added\<close> is passed on as it is, since the source has
  \<^verbatim>\<open>// added = (added || added_list);\<close> as a comment only.\<close>

definition dense_lists ::
  "bool \<Rightarrow> 'l LIST \<Rightarrow> nat \<Rightarrow> 'l LIST \<Rightarrow> nat option \<Rightarrow> bool \<Rightarrow>
     error + ('l LIST \<times> nat option \<times> bool)" where
  "dense_lists added_list sub_list key lhs prev added =
     (if \<not> added_list then Inr (lhs, prev, added)
      else if lhs = [] then
        (case list_insert lhs False key (Sub sub_list) of
           (n, lhs') \<Rightarrow> Inr (lhs', Some (fst n), added))
      else
        (case prev of
           None \<Rightarrow> Inl Undefined
         | Some pk \<Rightarrow>
             (case list_insert_after lhs pk key (Sub sub_list) of
                (n, lhs') \<Rightarrow> Inr (lhs', Some (fst n), added))))"

text \<open>The function entry, which initialises the loop, and the \<^verbatim>\<open>for\<close> loop; the code
  after the loop is the branch taken when the loop test fails. The result is
  \<^verbatim>\<open>added\<close> with the list, \<^verbatim>\<open>pos\<close> and \<^verbatim>\<open>coords\<close> as the call leaves them.\<close>

function dense_template ::
  "('r \<Rightarrow> nat \<Rightarrow> bool) \<Rightarrow> ('r \<Rightarrow> 'l) \<Rightarrow> 'l LIST \<Rightarrow> 'r list \<Rightarrow> nat \<Rightarrow> 64 word \<Rightarrow>
     nat list \<Rightarrow> nat list \<Rightarrow> nat \<Rightarrow> nat \<Rightarrow>
     error + (bool \<times> 'l LIST \<times> 64 word \<times> nat list)"
and dense_loop ::
  "('r \<Rightarrow> nat \<Rightarrow> bool) \<Rightarrow> ('r \<Rightarrow> 'l) \<Rightarrow> 'r list \<Rightarrow> nat \<Rightarrow> nat list \<Rightarrow> nat \<Rightarrow> nat \<Rightarrow>
     'l LIST \<Rightarrow> 64 word \<Rightarrow> nat list \<Rightarrow> nat option \<Rightarrow> bool \<Rightarrow>
     error + (bool \<times> 'l LIST \<times> 64 word \<times> nat list)" where
  "dense_template ne cast lhs rhs zero pos crds shp rnk recursions =
     (if recursions < rnk \<and> rnk \<le> length crds \<and> rnk \<le> length shp then
        dense_loop ne cast rhs zero shp rnk recursions
          lhs pos (crds[rnk - 1 - recursions := 0]) None False
      else Inl Undefined)"
| "dense_loop ne cast rhs zero shp rnk recursions lhs pos crds prev added =
     (if recursions < rnk \<and> rnk \<le> length crds \<and> rnk \<le> length shp then
        (if crds ! (rnk - 1 - recursions) < shp ! (rnk - 1 - recursions) then
           (if recursions = 0 then
              (case dense_nodes ne cast rhs zero (crds ! (rnk - 1 - recursions)) lhs pos prev added of
                 Inl e \<Rightarrow> Inl e
               | Inr (lhs', prev', added') \<Rightarrow>
                   dense_loop ne cast rhs zero shp rnk recursions lhs' (pos + 1)
                     (crds[rnk - 1 - recursions := crds ! (rnk - 1 - recursions) + 1])
                     prev' added')
            else
              (case dense_template ne cast list_create rhs zero pos crds shp rnk (recursions - 1) of
                 Inl e \<Rightarrow> Inl e
               | Inr (added_list, sub_list, pos', crds') \<Rightarrow>
                   (case dense_lists added_list sub_list (crds' ! (rnk - 1 - recursions))
                           lhs prev added of
                      Inl e \<Rightarrow> Inl e
                    | Inr (lhs', prev', added') \<Rightarrow>
                        dense_loop ne cast rhs zero shp rnk recursions lhs' (pos' + 1)
                          (crds'[rnk - 1 - recursions := crds' ! (rnk - 1 - recursions) + 1])
                          prev' added')))
         else Inr (added, lhs, pos - 1, crds[rnk - 1 - recursions := 0]))
      else Inl Undefined)"
  by pat_completeness auto

text \<open>Termination: a call leaves the entries of \<^verbatim>\<open>coords\<close> above its own level as
  they are (\<open>kept\<close>), so the loop counter of the caller still grows.\<close>

termination
proof -
  have kept:

    "dense_template_dense_loop_dom (Inl (ne, cast, lhs, rhs, zero, pos, crds, shp, rnk, recursions)) \<Longrightarrow>
       (\<forall>a l p c'. dense_template ne cast lhs rhs zero pos crds shp rnk recursions = Inr (a, l, p, c') \<longrightarrow>
          length c' = length crds \<and> (\<forall>j < rnk - 1 - recursions. c' ! j = crds ! j))"
    "dense_template_dense_loop_dom (Inr (ne, cast, rhs, zero, shp, rnk, recursions, lhs, pos, crds, prev, added)) \<Longrightarrow>
       (\<forall>a l p c'. dense_loop ne cast rhs zero shp rnk recursions lhs pos crds prev added = Inr (a, l, p, c') \<longrightarrow>
          length c' = length crds \<and> (\<forall>j < rnk - 1 - recursions. c' ! j = crds ! j))"
    for ne :: "'r \<Rightarrow> nat \<Rightarrow> bool" and cast :: "'r \<Rightarrow> 'l"
      and lhs rhs zero pos crds shp rnk recursions prev added
  proof (induct rule: dense_template_dense_loop.pinduct)
    case (1 ne cast lhs rhs zero pos crds shp rnk recursions)
    note ps = dense_template.psimps[OF 1(1)]
    show ?case
    proof (intro allI impI)
      fix a l p c'
      assume res: "dense_template ne cast lhs rhs zero pos crds shp rnk recursions = Inr (a, l, p, c')"
      have g: "recursions < rnk \<and> rnk \<le> length crds \<and> rnk \<le> length shp"
      proof (rule ccontr)
        assume "\<not> ?thesis"
        then have "dense_template ne cast lhs rhs zero pos crds shp rnk recursions = Inl Undefined"
          by (simp only: ps if_True if_False simp_thms)
        with res show False by simp
      qed
      then have "dense_template ne cast lhs rhs zero pos crds shp rnk recursions =
          dense_loop ne cast rhs zero shp rnk recursions
            lhs pos (crds[rnk - 1 - recursions := 0]) None False"
        by (simp only: ps if_True if_False simp_thms)
      with res have r: "dense_loop ne cast rhs zero shp rnk recursions
            lhs pos (crds[rnk - 1 - recursions := 0]) None False = Inr (a, l, p, c')" by simp
      from 1(2)[OF g] r have "length c' = length (crds[rnk - 1 - recursions := 0])"
        "\<forall>j < rnk - 1 - recursions. c' ! j = crds[rnk - 1 - recursions := 0] ! j" by blast+
      then show "length c' = length crds \<and> (\<forall>j < rnk - 1 - recursions. c' ! j = crds ! j)"
        by simp
    qed
  next
    case (2 ne cast rhs zero shp rnk recursions lhs pos crds prev added)
    note ps = dense_loop.psimps[OF 2(1)]
    show ?case
    proof (intro allI impI)
      fix a l p c'
      assume res: "dense_loop ne cast rhs zero shp rnk recursions lhs pos crds prev added = Inr (a, l, p, c')"
      have g: "recursions < rnk \<and> rnk \<le> length crds \<and> rnk \<le> length shp"
      proof (rule ccontr)
        assume "\<not> ?thesis"
        then have "dense_loop ne cast rhs zero shp rnk recursions lhs pos crds prev added = Inl Undefined"
          by (simp only: ps if_True if_False simp_thms)
        with res show False by simp
      qed
      show "length c' = length crds \<and> (\<forall>j < rnk - 1 - recursions. c' ! j = crds ! j)"
      proof (cases "crds ! (rnk - 1 - recursions) < shp ! (rnk - 1 - recursions)")
        case False
        then have "dense_loop ne cast rhs zero shp rnk recursions lhs pos crds prev added
             = Inr (added, lhs, pos - 1, crds[rnk - 1 - recursions := 0])"
          using g by (simp only: ps if_True if_False simp_thms)
        with res show ?thesis by auto
      next
        case True
        show ?thesis
        proof (cases "recursions = 0")
          case z: True
          have eq: "dense_loop ne cast rhs zero shp rnk recursions lhs pos crds prev added =
             (case dense_nodes ne cast rhs zero (crds ! (rnk - 1 - recursions)) lhs pos prev added of
                   Inl e \<Rightarrow> Inl e
                 | Inr (lhs', prev', added') \<Rightarrow>
                     dense_loop ne cast rhs zero shp rnk recursions lhs' (pos + 1)
                       (crds[rnk - 1 - recursions := crds ! (rnk - 1 - recursions) + 1])
                       prev' added')"
            by (subst ps) (use g True z in simp)
          from res eq obtain l1 p1 a1 where
            n: "dense_nodes ne cast rhs zero (crds ! (rnk - 1 - recursions)) lhs pos prev added
                  = Inr (l1, p1, a1)"
            and r: "dense_loop ne cast rhs zero shp rnk recursions l1 (pos + 1)
                       (crds[rnk - 1 - recursions := crds ! (rnk - 1 - recursions) + 1])
                       p1 a1 = Inr (a, l, p, c')"
            by (auto split: sum.splits prod.splits)
          from 2(2)[OF g True z n refl refl] r show ?thesis by auto
        next
          case nz: False
          have eq: "dense_loop ne cast rhs zero shp rnk recursions lhs pos crds prev added =
             (case dense_template ne cast list_create rhs zero pos crds shp rnk (recursions - 1) of
                   Inl e \<Rightarrow> Inl e
                 | Inr (added_list, sub_list, pos', crds') \<Rightarrow>
                     (case dense_lists added_list sub_list (crds' ! (rnk - 1 - recursions))
                             lhs prev added of
                        Inl e \<Rightarrow> Inl e
                      | Inr (lhs', prev', added') \<Rightarrow>
                          dense_loop ne cast rhs zero shp rnk recursions lhs' (pos' + 1)
                            (crds'[rnk - 1 - recursions := crds' ! (rnk - 1 - recursions) + 1])
                            prev' added'))"
            by (subst ps) (use g True nz in simp)
          from res eq obtain al sl q1 c1 l1 p1 a1 where
            inner: "dense_template ne cast list_create rhs zero pos crds shp rnk (recursions - 1)
                      = Inr (al, sl, q1, c1)"
            and n: "dense_lists al sl (c1 ! (rnk - 1 - recursions)) lhs prev added = Inr (l1, p1, a1)"
            and r: "dense_loop ne cast rhs zero shp rnk recursions l1 (q1 + 1)
                       (c1[rnk - 1 - recursions := c1 ! (rnk - 1 - recursions) + 1])
                       p1 a1 = Inr (a, l, p, c')"
            by (auto split: sum.splits prod.splits)
          from 2(3)[OF g True nz] inner have k1: "length c1 = length crds"
            "\<forall>j < rnk - 1 - (recursions - 1). c1 ! j = crds ! j" by blast+
          from g nz have lt: "rnk - 1 - recursions < rnk - 1 - (recursions - 1)" by arith
          have k2: "\<forall>j < rnk - 1 - recursions. c1 ! j = crds ! j"
            using k1(2) lt by auto
          from 2(4)[OF g True nz inner refl refl refl n refl refl] r k1(1) k2
          show ?thesis by auto
        qed
      qed
    qed
  qed
  show ?thesis
  proof (relation "measures
     [\<lambda>x. case x of Inl (ne, cast, lhs, rhs, zero, pos, crds, shp, rnk, recursions) \<Rightarrow> recursions
             | Inr (ne, cast, rhs, zero, shp, rnk, recursions, lhs, pos, crds, prev, added) \<Rightarrow> recursions,
      \<lambda>x. case x of Inl a \<Rightarrow> 1 | Inr b \<Rightarrow> 0,
      \<lambda>x. case x of Inl a \<Rightarrow> 0
             | Inr (ne, cast, rhs, zero, shp, rnk, recursions, lhs, pos, crds, prev, added) \<Rightarrow>
                 shp ! (rnk - 1 - recursions) - crds ! (rnk - 1 - recursions)]", goal_cases)
    case 1
    show ?case by simp
  next
    case 2
    show ?case by simp
  next
    case (3 ne cast rhs zero shp rnk recursions lhs pos crds prev added x xa y xb ya)
    then have g: "recursions < rnk" "rnk \<le> length crds"
      "crds ! (rnk - 1 - recursions) < shp ! (rnk - 1 - recursions)" by simp_all
    then have "rnk - 1 - recursions < length crds" by arith
    with g(3) show ?case by (simp; arith)
  next
    case 4
    then show ?case by simp
  next
    case (5 ne cast rhs zero shp rnk recursions lhs pos crds prev added b x y xa ya xb yb ba xc yc xd yd)
    then have d: "dense_template_dense_loop_dom
        (Inl (ne, cast, list_create, rhs, zero, pos, crds, shp, rnk, recursions - 1))" by simp
    from 5 have e: "dense_template ne cast list_create rhs zero pos crds shp rnk (recursions - 1)
        = Inr (x, xa, xb, yb)" by simp
    from 5 have g: "recursions < rnk" "rnk \<le> length crds" "recursions \<noteq> 0"
      "crds ! (rnk - 1 - recursions) < shp ! (rnk - 1 - recursions)" by simp_all
    from kept(1)[OF d] e have k: "length yb = length crds"
      "\<forall>j < rnk - 1 - (recursions - 1). yb ! j = crds ! j" by blast+
    from g have "rnk - 1 - recursions < rnk - 1 - (recursions - 1)" by arith
    with k have "yb ! (rnk - 1 - recursions) = crds ! (rnk - 1 - recursions)" by blast
    moreover from g k have "rnk - 1 - recursions < length yb" by arith
    ultimately show ?case using g by (simp; arith)
  qed
qed

subsection \<open>Copying in memory\<close>

text \<open>
  Whether a copy shares anything with its source is a question about addresses, so for
  \<^verbatim>\<open>list_storage_copy\<close> the storage is also laid out in a memory: a partial map from
  addresses to objects, with the allocation mark \<open>brk\<close> below which every allocated object
  lies. The objects are the \<^verbatim>\<open>LIST_STORAGE\<close> record (dtype, rank and the pointers
  \<^verbatim>\<open>shape\<close>, \<^verbatim>\<open>default_val\<close>, \<^verbatim>\<open>rows\<close>), a shape buffer, a buffer of one scalar, a
  \<^verbatim>\<open>LIST\<close> with the addresses of its nodes in link order, and a \<^verbatim>\<open>NODE\<close> with its key
  and its \<^verbatim>\<open>val\<close> pointer.
\<close>

datatype 'a obj =
    Storage_obj nat nat nat nat nat
  | Shape_obj "nat list"
  | Scalar_obj 'a
  | List_obj "nat list"
  | Node_obj nat nat

record 'a memory =
  cells :: "nat \<Rightarrow> 'a obj option"
  brk :: nat

text \<open>\<^verbatim>\<open>ALLOC\<close>, \<^verbatim>\<open>ALLOC_N\<close> and \<^verbatim>\<open>list_create\<close> take the next address; the object is
  given its contents at once.\<close>

definition alloc :: "'a memory \<Rightarrow> 'a obj \<Rightarrow> nat \<times> 'a memory" where
  "alloc m ob = (brk m, m\<lparr>cells := (cells m)(brk m \<mapsto> ob), brk := Suc (brk m)\<rparr>)"












section \<open>Properties\<close>

text \<open>C9: \<^verbatim>\<open>list_storage_get\<close> fails with \<open>NotImpError\<close> for every storage and every
  slice, and the storage after the call is the storage before it.\<close>

theorem list_storage_get_not_implemented:
  "list_storage_get s sl = (Inl NotImpError, s)"
  by (simp add: list_storage_get_def)

subsection \<open>Counting non-diagonal elements\<close>

lemma count_nd_row_eq:
  "count_nd_row i row c = c + length (filter (\<lambda>m. i \<noteq> fst m) row)"
  by (induction row arbitrary: c) auto

lemma stored_keys_Cons:
  "stored_keys (n # ns) =
     (case snd n of Sub row \<Rightarrow> map (\<lambda>m. (fst n, fst m)) row | Scalar x \<Rightarrow> []) @ stored_keys ns"
  by (simp add: stored_keys_def)

lemma count_nd_rows_eq:
  "list_all (\<lambda>n. wf_val 1 (snd n)) root \<Longrightarrow>
     count_nd_rows root c = Inr (c + length (filter (\<lambda>(i, j). i \<noteq> j) (stored_keys root)))"
proof (induction root arbitrary: c)
  case Nil
  then show ?case by (simp add: stored_keys_def)
next
  case (Cons n ns)
  from Cons.prems obtain row where row: "snd n = Sub row"
    by (cases "snd n") auto
  have "length (filter (\<lambda>(i, j). i \<noteq> j) (map (\<lambda>m. (fst n, fst m)) row))
          = length (filter (\<lambda>m. fst n \<noteq> fst m) row)"
    by (induction row) auto
  with Cons row show ?case
    by (simp add: count_nd_row_eq stored_keys_Cons)
qed

text \<open>C10: counting the non-diagonal stored elements fails with \<open>NotImpError\<close> whenever
  the rank is not 2; on a well-formed storage of rank 2 it returns the number of stored
  nodes whose row key differs from their column key; in both cases the storage after
  the call is the storage before it.\<close>

theorem count_list_storage_nd_elements_spec:
  "(rank s \<noteq> 2 \<longrightarrow> count_list_storage_nd_elements s = (Inl NotImpError, s)) \<and>
   (rank s = 2 \<and> wf_storage s \<longrightarrow>
      count_list_storage_nd_elements s =
        (Inr (length (filter (\<lambda>(i, j). i \<noteq> j) (stored_keys (rows s)))), s))"
  using count_nd_rows_eq [of "rows s" 0]
  by (auto simp: count_list_storage_nd_elements_def wf_storage_def wf_list_def)

theorem count_list_storage_nd_elements_spec_witness:
  "count_list_storage_nd_elements
      \<lparr>dtype = 0, rank = 3, shape = [2, 2, 2], default_val = 0 :: int, rows = []\<rparr>
     = (Inl NotImpError,
        \<lparr>dtype = 0, rank = 3, shape = [2, 2, 2], default_val = 0 :: int, rows = []\<rparr>) \<and>
   wf_storage \<lparr>dtype = 0, rank = 2, shape = [3, 3], default_val = 0 :: int,
      rows = [(0, Sub [(0, Scalar 5), (2, Scalar 4)]), (2, Sub [(2, Scalar 7)])]\<rparr> \<and>
   count_list_storage_nd_elements
      \<lparr>dtype = 0, rank = 2, shape = [3, 3], default_val = 0 :: int,
        rows = [(0, Sub [(0, Scalar 5), (2, Scalar 4)]), (2, Sub [(2, Scalar 7)])]\<rparr>
     = (Inr 1,
        \<lparr>dtype = 0, rank = 2, shape = [3, 3], default_val = 0 :: int,
          rows = [(0, Sub [(0, Scalar 5), (2, Scalar 4)]), (2, Sub [(2, Scalar 7)])]\<rparr>)"
  using count_list_storage_nd_elements_spec
          [of "\<lparr>dtype = 0, rank = 3, shape = [2, 2, 2], default_val = 0 :: int, rows = []\<rparr>"]
        count_list_storage_nd_elements_spec
          [of "\<lparr>dtype = 0, rank = 2, shape = [3, 3], default_val = 0 :: int,
                rows = [(0, Sub [(0, Scalar 5), (2, Scalar 4)]), (2, Sub [(2, Scalar 7)])]\<rparr>"]
  by (simp add: wf_storage_def wf_list_def stored_keys_def)

text \<open>C1 asks that after a removal no empty nested list stays reachable from the root.
  The second loop of \<^verbatim>\<open>list_storage_remove\<close> passes the emptied list itself,
  \<^verbatim>\<open>stack[r]->val\<close>, to \<^verbatim>\<open>list_remove\<close>, not the list that holds the node; nothing is
  unlinked. Removing the only element of a rank-2 storage returns it and leaves the
  node of row 0 with its empty list behind.\<close>

theorem list_storage_remove_keeps_empty_branch:
  "list_storage_remove
      \<lparr>dtype = 0, rank = 2, shape = [3, 3], default_val = 0 :: int,
        rows = [(0, Sub [(0, Scalar 5)])]\<rparr>
      \<lparr>coords = [0, 0]\<rparr>
     = (Inr (Some (Scalar 5)),
        \<lparr>dtype = 0, rank = 2, shape = [3, 3], default_val = 0 :: int,
          rows = [(0, Sub [])]\<rparr>) \<and>
   no_empty_branch [(0, Sub [(0, Scalar (5 :: int))])] \<and>
   \<not> no_empty_branch [(0 :: nat, Sub ([] :: int LIST))]"
  by (simp add: list_storage_remove_def coord_at_def no_empty_branch_def)

text \<open>C2 asks that the constructed tree holds exactly the non-zero elements for every
  rank. \<open>added\<close> is set only in the node branch, so a call with \<open>recursions \<ge> 1\<close>
  returns \<open>False\<close> and its caller drops the list it built: with three dimensions
  nothing is kept. The dense array of shape 1 x 2 x 2 with the non-zero elements 5 at
  (0,0,0) and 7 at (0,1,1) yields the empty list, whatever the pointer \<open>zero\<close> is and
  whatever the test \<^verbatim>\<open>rhs[pos] != zero\<close> answers for the four elements.\<close>

theorem dense_template_rank3_drops_elements:
  "dense_template ne (\<lambda>x :: int. x) list_create [5, 0, 0, 7] zero 0 [0, 0, 0] [1, 2, 2] 3 2
     = Inr (False, [], 3, [0, 0, 0])"
  by (simp add: dense_nodes_def dense_lists_def list_create_def)

subsection \<open>Lemmas for the accessors\<close>

text \<open>The loop equations are unfolded by hand from here on.\<close>

declare ref_loop.simps [simp del] insert_loop.simps [simp del]
  remove_loop.simps [simp del] prune_loop.simps [simp del]

subsection \<open>The list primitives\<close>

lemma list_find_Some: "list_find l k = Some n \<Longrightarrow> fst n = k \<and> n \<in> set l"
  by (induction l) (auto split: if_splits)

lemma list_find_None: "(list_find l k = None) = (k \<notin> fst ` set l)"
  by (induction l) auto

lemma list_insert_key: "fst (fst (list_insert l rep k v)) = k"
  by (induction l) (auto simp: case_prod_beta)

lemma list_insert_find: "list_find (snd (list_insert l rep k v)) k = Some (fst (list_insert l rep k v))"
  by (induction l) (auto simp: case_prod_beta)

lemma list_insert_find_other:
  "k' \<noteq> k \<Longrightarrow> list_find (snd (list_insert l rep k v)) k' = list_find l k'"
  by (induction l) (auto simp: case_prod_beta)

lemma list_insert_replace: "fst (list_insert l True k v) = (k, v)"
  by (induction l) (auto simp: case_prod_beta)

lemma sorted_head_absent:
  "sorted_wrt (<) (map fst (n # ns)) \<Longrightarrow> k \<le> fst n \<Longrightarrow> list_find ns k = None"
  by (auto simp: list_find_None)

lemma list_insert_keep:
  "sorted_wrt (<) (map fst l) \<Longrightarrow>
     fst (list_insert l False k v) = (case list_find l k of Some n \<Rightarrow> n | None \<Rightarrow> (k, v))"
proof (induction l)
  case Nil
  then show ?case by simp
next
  case (Cons n ns)
  show ?case
  proof (cases "k < fst n")
    case True
    with Cons.prems have "list_find ns k = None"
      by (intro sorted_head_absent[of n ns k]) auto
    with True show ?thesis by simp
  next
    case False
    with Cons show ?thesis by (auto simp: case_prod_beta)
  qed
qed

lemma list_insert_set:
  "set (snd (list_insert l rep k v)) \<subseteq> insert (k, v) (set l)"
  by (induction l) (auto simp: case_prod_beta)

lemma list_insert_keys:
  "n' \<in> set (snd (list_insert l rep k v)) \<Longrightarrow> fst n' = k \<or> fst n' \<in> fst ` set l"
  using list_insert_set[of l rep k v] by auto

lemma list_insert_sorted:
  "sorted_wrt (<) (map fst l) \<Longrightarrow> sorted_wrt (<) (map fst (snd (list_insert l rep k v)))"
proof (induction l)
  case Nil
  then show ?case by simp
next
  case (Cons n ns)
  show ?case
  proof (cases "k < fst n")
    case True
    with Cons.prems show ?thesis by auto
  next
    case False
    note nlt = this
    show ?thesis
    proof (cases "k = fst n")
      case True
      with Cons.prems show ?thesis by auto
    next
      case False
      with nlt have lt: "fst n < k" by simp
      have "\<forall>n' \<in> set (snd (list_insert ns rep k v)). fst n < fst n'"
      proof
        fix n' assume "n' \<in> set (snd (list_insert ns rep k v))"
        then have "fst n' = k \<or> fst n' \<in> fst ` set ns" by (rule list_insert_keys)
        with lt Cons.prems show "fst n < fst n'" by auto
      qed
      with Cons False nlt show ?thesis by (simp add: case_prod_beta)
    qed
  qed
qed


lemma list_remove_set: "set (snd (list_remove l k)) \<subseteq> set l"
  by (induction l) (auto simp: case_prod_beta)

lemma list_remove_sorted:
  "sorted_wrt (<) (map fst l) \<Longrightarrow> sorted_wrt (<) (map fst (snd (list_remove l k)))"
proof (induction l)
  case Nil
  then show ?case by simp
next
  case (Cons n ns)
  have "set (snd (list_remove ns k)) \<subseteq> set ns" by (rule list_remove_set)
  with Cons show ?case
    by (auto simp: case_prod_beta)
qed

lemma list_remove_find_other:
  "k' \<noteq> k \<Longrightarrow> list_find (snd (list_remove l k)) k' = list_find l k'"
  by (induction l) (auto simp: case_prod_beta)

lemma list_remove_find_same:
  "sorted_wrt (<) (map fst l) \<Longrightarrow> list_find (snd (list_remove l k)) k = None"
proof (induction l)
  case Nil
  then show ?case by simp
next
  case (Cons n ns)
  show ?case
  proof (cases "fst n = k")
    case True
    with Cons.prems have "list_find ns k = None"
      by (intro sorted_head_absent[of n ns k]) auto
    with True show ?thesis by simp
  next
    case False
    with Cons show ?thesis by (simp add: case_prod_beta)
  qed
qed

lemma list_remove_absent: "list_find l k = None \<Longrightarrow> list_remove l k = (None, l)"
  by (induction l) (auto split: if_splits)

subsection \<open>Pointers as key paths\<close>

lemma list_put_one_find:
  "list_find l k = Some n \<Longrightarrow> snd n = Sub sub \<Longrightarrow>
     list_find (list_put l [k] x) k = Some (k, Sub x)"
  by (induction l) (auto split: if_splits)

lemma list_put_find_other:
  "k' \<noteq> k \<Longrightarrow> list_find (list_put l (k # p) x) k' = list_find l k'"
  by (induction l) (auto split: nval.splits)

lemma list_put_find_same:
  "list_find l k = Some n \<Longrightarrow> snd n = Sub sub \<Longrightarrow>
     list_find (list_put l (k # p) x) k = Some (k, Sub (list_put sub p x))"
  by (induction l) (auto split: if_splits)

lemma list_put_keys: "map fst (list_put l (k # p) x) = map fst l"
  by (induction l) (auto split: nval.splits)

lemma list_at_append:
  "list_at root (p @ q) = (case list_at root p of None \<Rightarrow> None | Some l \<Rightarrow> list_at l q)"
  by (induction p arbitrary: root) (auto split: option.splits nval.splits)

lemma list_put_same: "list_at root p = Some cur \<Longrightarrow> list_put root p cur = root"
proof (induction p arbitrary: root)
  case Nil
  then show ?case by simp
next
  case (Cons k p)
  from Cons.prems obtain n sub where n: "list_find root k = Some n" "snd n = Sub sub"
    "list_at sub p = Some cur"
    by (auto split: option.splits nval.splits)
  from Cons.IH[OF n(3)] have s: "list_put sub p cur = sub" .
  from n(1,2) show ?case
    by (induction root) (auto simp: s split: if_splits)
qed

lemma list_at_put: "list_at root p = Some cur \<Longrightarrow> list_at (list_put root p x) p = Some x"
proof (induction p arbitrary: root)
  case Nil
  then show ?case by simp
next
  case (Cons k p)
  from Cons.prems obtain n sub where n: "list_find root k = Some n" "snd n = Sub sub"
    "list_at sub p = Some cur"
    by (auto split: option.splits nval.splits)
  from Cons.IH[OF n(3)] list_put_find_same[OF n(1,2)] show ?case by simp
qed

lemma list_put_put:
  "list_at root p = Some cur \<Longrightarrow> list_put (list_put root p x) p y = list_put root p y"
proof (induction p arbitrary: root)
  case Nil
  then show ?case by simp
next
  case (Cons k p)
  from Cons.prems obtain n sub where n: "list_find root k = Some n" "snd n = Sub sub"
    "list_at sub p = Some cur"
    by (auto split: option.splits nval.splits)
  from Cons.IH[OF n(3)] have s: "list_put (list_put sub p x) p y = list_put sub p y" .
  from n(1,2) show ?case
    by (induction root) (auto simp: s split: if_splits)
qed

lemma list_put_append:
  "list_at root p = Some cur \<Longrightarrow> list_put root (p @ q) x = list_put root p (list_put cur q x)"
proof (induction p arbitrary: root)
  case Nil
  then show ?case by simp
next
  case (Cons k p)
  from Cons.prems obtain n sub where n: "list_find root k = Some n" "snd n = Sub sub"
    "list_at sub p = Some cur"
    by (auto split: option.splits nval.splits)
  from Cons.IH[OF n(3)] have s: "list_put sub (p @ q) x = list_put sub p (list_put cur q x)" .
  from n(1,2) show ?case
    by (induction root) (auto simp: s split: if_splits)
qed

lemma list_at_put_prefix:
  assumes "list_at root (p @ q) = Some cur"
  shows "\<exists>m. list_at (list_put root (p @ q) x) p = Some m"
proof -
  from assms obtain m where m: "list_at root p = Some m"
    by (auto simp: list_at_append split: option.splits)
  then have "list_put root (p @ q) x = list_put root p (list_put m q x)"
    by (rule list_put_append)
  with list_at_put[OF m] show ?thesis by simp
qed

subsection \<open>Well-formed lists\<close>

lemma wf_list_iff:
  "wf_list d l = (sorted_wrt (<) (map fst l) \<and> (\<forall>n \<in> set l. wf_val d (snd n)))"
  by (simp add: wf_list_def list_all_iff)

lemma wf_val_Sub: "wf_val (Suc d) v \<Longrightarrow> \<exists>sub. v = Sub sub \<and> wf_list d sub"
  by (cases v) (auto simp: wf_list_def)

lemma wf_val_Scalar: "wf_val 0 v \<Longrightarrow> \<exists>x. v = Scalar x"
  by (cases v) auto

lemma wf_val_list: "wf_val (Suc d) (Sub sub) = wf_list d sub"
  by (simp add: wf_list_def)

lemma wf_find_Sub:
  "wf_list (Suc d) l \<Longrightarrow> list_find l k = Some n \<Longrightarrow> \<exists>sub. n = (k, Sub sub) \<and> wf_list d sub"
  using list_find_Some[of l k n] wf_val_Sub[of d "snd n"]
  by (cases n) (auto simp: wf_list_iff)

lemma wf_find_Scalar:
  "wf_list 0 l \<Longrightarrow> list_find l k = Some n \<Longrightarrow> \<exists>x. n = (k, Scalar x)"
  using list_find_Some[of l k n] wf_val_Scalar[of "snd n"]
  by (cases n) (auto simp: wf_list_iff)

lemma wf_list_insert:
  "wf_list d l \<Longrightarrow> wf_val d v \<Longrightarrow> wf_list d (snd (list_insert l rep k v))"
  using list_insert_set[of l rep k v] list_insert_sorted[of l rep k v]
  by (auto simp: wf_list_iff)

lemma wf_list_remove: "wf_list d l \<Longrightarrow> wf_list d (snd (list_remove l k))"
  using list_remove_set[of l k] list_remove_sorted[of l k]
  by (auto simp: wf_list_iff)

lemma list_put_one_set:
  "n \<in> set (list_put l [k] x) \<Longrightarrow> n \<in> set l \<or> n = (k, Sub x)"
  by (induction l) (auto split: if_splits nval.splits)

lemma wf_list_put_one:
  assumes "wf_list (Suc d) l" "wf_list d x"
  shows "wf_list (Suc d) (list_put l [k] x)"
proof -
  have "wf_val (Suc d) (snd n)" if "n \<in> set (list_put l [k] x)" for n
  proof -
    from that have "n \<in> set l \<or> n = (k, Sub x)" by (rule list_put_one_set)
    with assms show ?thesis by (auto simp: wf_list_iff list_all_iff)
  qed
  moreover have "map fst (list_put l [k] x) = map fst l" by (rule list_put_keys)
  ultimately show ?thesis using assms(1) by (simp add: wf_list_iff)
qed

subsection \<open>What the loops compute\<close>

lemma stored_at_Cons:
  "ks \<noteq> [] \<Longrightarrow> stored_at l (k # ks) =
     (case list_find l k of
        None \<Rightarrow> None
      | Some n \<Rightarrow> (case snd n of Sub sub \<Rightarrow> stored_at sub ks | Scalar x \<Rightarrow> None))"
  by (cases ks) auto

lemma tree_insert_Cons:
  "ks \<noteq> [] \<Longrightarrow> tree_insert l (k # ks) v =
     (case list_insert l False k (Sub list_create) of
        (n, l') \<Rightarrow>
          (case snd n of
             Sub sub \<Rightarrow> list_put l' [k] (tree_insert sub ks v)
           | Scalar x \<Rightarrow> l'))"
  by (cases ks) auto

lemma tree_remove_Cons:
  "ks \<noteq> [] \<Longrightarrow> tree_remove l (k # ks) =
     (case list_find l k of
        None \<Rightarrow> (None, l)
      | Some n \<Rightarrow>
          (case snd n of
             Sub sub \<Rightarrow>
               (case tree_remove sub ks of (rm, sub') \<Rightarrow> (rm, list_put l [k] sub'))
           | Scalar x \<Rightarrow> (None, l)))"
  by (cases ks) auto

lemma drop_step:
  "length cs = R \<Longrightarrow> 0 < r \<Longrightarrow> r \<le> R \<Longrightarrow> drop (R - r) cs = cs ! (R - r) # drop (R - (r - 1)) cs"
proof -
  assume a: "length cs = R" "0 < r" "r \<le> R"
  then have "R - r < length cs" by arith
  then have "drop (R - r) cs = cs ! (R - r) # drop (Suc (R - r)) cs"
    by (simp add: Cons_nth_drop_Suc)
  moreover from a have "Suc (R - r) = R - (r - 1)" by arith
  ultimately show ?thesis by simp
qed

lemma drop_nonempty: "length cs = R \<Longrightarrow> 0 < r \<Longrightarrow> r \<le> R \<Longrightarrow> drop (R - r) cs \<noteq> []"
  by auto

lemma coord_at_in: "length (coords sl) = R \<Longrightarrow> 0 < r \<Longrightarrow> r \<le> R \<Longrightarrow>
    coord_at sl (R - r) = Some (coords sl ! (R - r))"
  by (auto simp: coord_at_def)

lemma ref_loop_stored:
  assumes len: "length (coords sl) = rank s"
  shows "1 \<le> r \<Longrightarrow> r \<le> rank s \<Longrightarrow> wf_list (r - 1) l \<Longrightarrow>
     ref_loop s sl r l =
       Inr (case stored_at l (drop (rank s - r) (coords sl)) of
              Some v \<Rightarrow> v | None \<Rightarrow> Scalar (default_val s))"
proof (induction r arbitrary: l)
  case 0
  then show ?case by simp
next
  case (Suc r)
  let ?k = "coords sl ! (rank s - Suc r)"
  have c: "coord_at sl (rank s - Suc r) = Some ?k"
    using len Suc.prems by (intro coord_at_in) auto
  have d: "drop (rank s - Suc r) (coords sl) = ?k # drop (rank s - r) (coords sl)"
    using drop_step[OF len, of "Suc r"] Suc.prems by simp
  show ?case
  proof (cases "r = 0")
    case True
    with len have "drop (rank s - r) (coords sl) = []" by simp
    with True c d show ?thesis
      by (subst ref_loop.simps) (simp split: option.splits)
  next
    case False
    then have ne: "drop (rank s - r) (coords sl) \<noteq> []"
      using len Suc.prems by (intro drop_nonempty) auto
    from False have r1: "1 < Suc r" "1 \<le> r" by simp_all
    show ?thesis
    proof (cases "list_find l ?k")
      case None
      with r1 c d ne show ?thesis
        by (subst ref_loop.simps) (simp add: stored_at_Cons)
    next
      case (Some n)
      from False Suc.prems have "wf_list (Suc (r - 1)) l" by simp
      from wf_find_Sub[OF this Some] obtain sub where
        n: "n = (?k, Sub sub)" and w: "wf_list (r - 1) sub" by auto
      from Suc.IH[OF r1(2) _ w] Suc.prems have
        "ref_loop s sl r sub =
           Inr (case stored_at sub (drop (rank s - r) (coords sl)) of
                  Some v \<Rightarrow> v | None \<Rightarrow> Scalar (default_val s))" by simp
      with r1 c d ne Some n show ?thesis
        by (subst ref_loop.simps) (simp add: stored_at_Cons)
    qed
  qed
qed

lemma insert_loop_tree:
  assumes len: "length (coords sl) = rank s"
  shows "1 \<le> r \<Longrightarrow> r \<le> rank s \<Longrightarrow> list_at root l = Some cur \<Longrightarrow> wf_list (r - 1) cur \<Longrightarrow>
     insert_loop s sl v r l root =
       Inr (Scalar v, list_put root l (tree_insert cur (drop (rank s - r) (coords sl)) v))"
proof (induction r arbitrary: l root cur)
  case 0
  then show ?case by simp
next
  case (Suc r)
  let ?k = "coords sl ! (rank s - Suc r)"
  have c: "coord_at sl (rank s - Suc r) = Some ?k"
    using len Suc.prems by (intro coord_at_in) auto
  have d: "drop (rank s - Suc r) (coords sl) = ?k # drop (rank s - r) (coords sl)"
    using drop_step[OF len, of "Suc r"] Suc.prems by simp
  show ?case
  proof (cases "r = 0")
    case True
    with len have "drop (rank s - r) (coords sl) = []" by simp
    with True c d Suc.prems show ?thesis
      by (subst insert_loop.simps) (simp add: case_prod_beta list_insert_replace)
  next
    case False
    then have ne: "drop (rank s - r) (coords sl) \<noteq> []"
      using len Suc.prems by (intro drop_nonempty) auto
    from False have r1: "1 < Suc r" "1 \<le> r" by simp_all
    from False Suc.prems have wl: "wf_list (Suc (r - 1)) cur" by simp
    let ?ins = "list_insert cur False ?k (Sub list_create)"
    let ?n = "fst ?ins" and ?cur' = "snd ?ins"
    have key: "fst ?n = ?k" by (rule list_insert_key)
    have fnd: "list_find ?cur' ?k = Some ?n" by (rule list_insert_find)
    have "wf_val (Suc (r - 1)) (Sub list_create)" by (simp add: list_create_def)
    from wf_list_insert[OF wl this] have wl': "wf_list (Suc (r - 1)) ?cur'" .
    from wf_find_Sub[OF wl' fnd] obtain sub where
      n: "?n = (?k, Sub sub)" and w: "wf_list (r - 1) sub" by auto
    let ?root' = "list_put root l ?cur'"
    have at': "list_at ?root' l = Some ?cur'"
      using Suc.prems(3) by (rule list_at_put)
    have at'': "list_at ?root' (l @ [?k]) = Some sub"
      using at' fnd n by (simp add: list_at_append)
    from Suc.IH[OF r1(2) _ at'' w] Suc.prems have
      "insert_loop s sl v r (l @ [?k]) ?root' =
         Inr (Scalar v, list_put ?root' (l @ [?k]) (tree_insert sub (drop (rank s - r) (coords sl)) v))"
      by simp
    also have "list_put ?root' (l @ [?k]) (tree_insert sub (drop (rank s - r) (coords sl)) v)
        = list_put ?root' l (list_put ?cur' [?k] (tree_insert sub (drop (rank s - r) (coords sl)) v))"
      using at' by (rule list_put_append)
    also have "\<dots> = list_put root l (list_put ?cur' [?k] (tree_insert sub (drop (rank s - r) (coords sl)) v))"
      using Suc.prems(3) by (rule list_put_put)
    finally have step: "insert_loop s sl v r (l @ [?k]) ?root' =
       Inr (Scalar v, list_put root l (list_put ?cur' [?k] (tree_insert sub (drop (rank s - r) (coords sl)) v)))" .
    have ti: "tree_insert cur (?k # drop (rank s - r) (coords sl)) v
        = list_put ?cur' [?k] (tree_insert sub (drop (rank s - r) (coords sl)) v)"
      using n by (simp add: tree_insert_Cons[OF ne] case_prod_beta)
    from r1 c Suc.prems(3) key step show ?thesis
      by (subst insert_loop.simps) (simp add: case_prod_beta d ti)
  qed
qed

lemma prune_loop_id:
  "(\<And>i. 0 \<le> i \<Longrightarrow> i \<le> r \<Longrightarrow>
        nat i < length stack \<and> nat i < length (coords sl) \<and>
        (\<exists>p m. stack ! nat i = Some p \<and> list_at root p = Some m)) \<Longrightarrow>
     prune_loop sl stack r root = Inr root"
proof (induction "nat (r + 1)" arbitrary: r)
  case 0
  then have "\<not> 0 \<le> r" by simp
  then show ?case by (subst prune_loop.simps) simp
next
  case (Suc n)
  then have r0: "0 \<le> r" by simp
  from Suc.prems[OF r0] obtain p m where
    b: "nat r < length stack" "nat r < length (coords sl)" and
    p: "stack ! nat r = Some p" "list_at root p = Some m" by auto
  have c: "coord_at sl (nat r) = Some (coords sl ! nat r)"
    using b by (simp add: coord_at_def)
  show ?case
  proof (cases "m = []")
    case True
    with p have same: "list_put root p [] = root" by (intro list_put_same) simp
    have "prune_loop sl stack (r - 1) root = Inr root"
    proof (rule Suc.hyps(1))
      show "n = nat (r - 1 + 1)" using Suc.hyps(2) by simp
    next
      fix i :: int assume "0 \<le> i" "i \<le> r - 1"
      then show "nat i < length stack \<and> nat i < length (coords sl) \<and>
          (\<exists>p m. stack ! nat i = Some p \<and> list_at root p = Some m)"
        using Suc.prems[of i] by simp
    qed
    with r0 b p c True same show ?thesis
      by (subst prune_loop.simps) simp
  next
    case False
    with r0 b p show ?thesis
      by (subst prune_loop.simps) simp
  qed
qed

lemma take_step:
  "length cs = R \<Longrightarrow> 0 < r \<Longrightarrow> r \<le> R \<Longrightarrow>
     take (R - r) cs @ [cs ! (R - r)] = take (R - (r - 1)) cs"
proof -
  assume a: "length cs = R" "0 < r" "r \<le> R"
  then have "R - r < length cs" by arith
  then have "take (Suc (R - r)) cs = take (R - r) cs @ [cs ! (R - r)]"
    by (rule take_Suc_conv_app_nth)
  moreover from a have "Suc (R - r) = R - (r - 1)" by arith
  ultimately show ?thesis by simp
qed

lemma remove_loop_tree:
  assumes len: "length (coords sl) = rank s"
  shows "1 \<le> r \<Longrightarrow> r \<le> rank s \<Longrightarrow> length stack = rank s - 1 \<Longrightarrow>
     l = take (rank s - r) (coords sl) \<Longrightarrow> list_at root l = Some cur \<Longrightarrow>
     wf_list (r - 1) cur \<Longrightarrow>
     (\<forall>i < rank s - r. stack ! i = Some (take (Suc i) (coords sl))) \<Longrightarrow>
     remove_loop s sl r l stack root =
       (case list_at cur (butlast (drop (rank s - r) (coords sl))) of
          None \<Rightarrow> Inl Undefined
        | Some leaf \<Rightarrow>
            Inr (fst (tree_remove cur (drop (rank s - r) (coords sl))),
                 list_put root l (snd (tree_remove cur (drop (rank s - r) (coords sl))))))"
proof (induction r arbitrary: l stack cur)
  case 0
  then show ?case by simp
next
  case (Suc r)
  let ?k = "coords sl ! (rank s - Suc r)"
  have c: "coord_at sl (rank s - Suc r) = Some ?k"
    using len Suc.prems by (intro coord_at_in) auto
  have d: "drop (rank s - Suc r) (coords sl) = ?k # drop (rank s - r) (coords sl)"
    using drop_step[OF len, of "Suc r"] Suc.prems by simp
  note at = \<open>list_at root l = Some cur\<close>
  show ?case
  proof (cases "r = 0")
    case True
    with len have e: "drop (rank s - r) (coords sl) = []" by simp
    let ?rm = "fst (list_remove cur ?k)" and ?cur' = "snd (list_remove cur ?k)"
    let ?root' = "list_put root l ?cur'"
    have pr: "prune_loop sl stack (int (rank s) - 2) ?root' = Inr ?root'"
    proof (rule prune_loop_id)
      fix i :: int assume i: "0 \<le> i" "i \<le> int (rank s) - 2"
      then have lt: "nat i < rank s - 1" by arith
      with Suc.prems True have st: "stack ! nat i = Some (take (Suc (nat i)) (coords sl))"
        by simp
      have "l = take (Suc (nat i)) l @ drop (Suc (nat i)) l" by simp
      also have "take (Suc (nat i)) l = take (Suc (nat i)) (coords sl)"
        using Suc.prems(4) True lt by (simp add: min_def)
      finally have split: "l = take (Suc (nat i)) (coords sl) @ drop (Suc (nat i)) l" .
      from at split have "list_at root (take (Suc (nat i)) (coords sl) @ drop (Suc (nat i)) l) = Some cur"
        by simp
      from list_at_put_prefix[OF this, of ?cur'] split obtain m where
        "list_at ?root' (take (Suc (nat i)) (coords sl)) = Some m" by auto
      with st lt Suc.prems(3) len
      show "nat i < length stack \<and> nat i < length (coords sl) \<and>
          (\<exists>p m. stack ! nat i = Some p \<and> list_at ?root' p = Some m)"
        by auto
    qed
    from True c at pr e d show ?thesis
      by (subst remove_loop.simps) (simp add: case_prod_beta)
  next
    case False
    then have ne: "drop (rank s - r) (coords sl) \<noteq> []"
      using len Suc.prems by (intro drop_nonempty) auto
    from False have r1: "1 < Suc r" "1 \<le> r" by simp_all
    from False Suc.prems have wl: "wf_list (Suc (r - 1)) cur" by simp
    show ?thesis
    proof (cases "list_find cur ?k")
      case None
      with r1 c at d ne show ?thesis
        by (subst remove_loop.simps) simp
    next
      case (Some n)
      from wf_find_Sub[OF wl Some] obtain sub where
        n: "n = (?k, Sub sub)" and w: "wf_list (r - 1) sub" by auto
      let ?l' = "l @ [?k]"
      let ?stack' = "stack[rank s - Suc r := Some ?l']"
      from Suc.prems False have idx: "rank s - Suc r < length stack" by arith
      have l': "?l' = take (rank s - r) (coords sl)"
        using take_step[OF len, of "Suc r"] Suc.prems by simp
      have at': "list_at root ?l' = Some sub"
        using at Some n by (simp add: list_at_append)
      have inv: "\<forall>i < rank s - r. ?stack' ! i = Some (take (Suc i) (coords sl))"
      proof (intro allI impI)
        fix i assume i: "i < rank s - r"
        show "?stack' ! i = Some (take (Suc i) (coords sl))"
        proof (cases "i = rank s - Suc r")
          case True
          with Suc.prems have "Suc i = rank s - r" by arith
          with True idx l' show ?thesis by simp
        next
          case False
          with i have "i < rank s - Suc r" by arith
          with Suc.prems(7) False show ?thesis by simp
        qed
      qed
      have ih: "remove_loop s sl r ?l' ?stack' root =
          (case list_at sub (butlast (drop (rank s - r) (coords sl))) of
             None \<Rightarrow> Inl Undefined
           | Some leaf \<Rightarrow>
               Inr (fst (tree_remove sub (drop (rank s - r) (coords sl))),
                    list_put root ?l' (snd (tree_remove sub (drop (rank s - r) (coords sl))))))"
        using Suc.prems by (intro Suc.IH[OF r1(2) _ _ l' at' w inv]) simp_all
      have pa: "list_put root ?l' (snd (tree_remove sub (drop (rank s - r) (coords sl))))
          = list_put root l (list_put cur [?k] (snd (tree_remove sub (drop (rank s - r) (coords sl)))))"
        using at by (rule list_put_append)
      have step: "remove_loop s sl r ?l' ?stack' root =
          (case list_at sub (butlast (drop (rank s - r) (coords sl))) of
             None \<Rightarrow> Inl Undefined
           | Some leaf \<Rightarrow>
               Inr (fst (tree_remove sub (drop (rank s - r) (coords sl))),
                    list_put root l (list_put cur [?k]
                      (snd (tree_remove sub (drop (rank s - r) (coords sl)))))))"
        unfolding ih pa ..
      from r1 c at Some n idx step d ne show ?thesis
        by (subst remove_loop.simps)
          (simp add: tree_remove_Cons[OF ne] case_prod_beta split: option.splits)
    qed
  qed
qed

subsection \<open>The three accessors on well-formed storages\<close>

lemma list_storage_ref_stored:
  assumes "wf_storage s" "length (coords sl) = rank s"
  shows "list_storage_ref s sl =
     (Inr (case stored_at (rows s) (coords sl) of
             Some v \<Rightarrow> v | None \<Rightarrow> Scalar (default_val s)), s)"
  using assms ref_loop_stored[OF assms(2), of "rank s" "rows s"]
  by (simp add: list_storage_ref_def wf_storage_def)

lemma list_storage_insert_tree:
  assumes "wf_storage s" "length (coords sl) = rank s"
  shows "list_storage_insert s sl v =
     (Inr (Scalar v), s\<lparr>rows := tree_insert (rows s) (coords sl) v\<rparr>)"
  using assms insert_loop_tree[OF assms(2), of "rank s" "rows s" "[]" "rows s" v]
  by (simp add: list_storage_insert_def wf_storage_def)

lemma list_storage_remove_tree:
  assumes "wf_storage s" "length (coords sl) = rank s"
  shows "list_storage_remove s sl =
     (case list_at (rows s) (butlast (coords sl)) of
        None \<Rightarrow> (Inl Undefined, s)
      | Some leaf \<Rightarrow>
          (Inr (fst (tree_remove (rows s) (coords sl))),
           s\<lparr>rows := snd (tree_remove (rows s) (coords sl))\<rparr>))"
  using assms
    remove_loop_tree[OF assms(2), of "rank s" "replicate (rank s - 1) None" "[]" "rows s" "rows s"]
  by (simp add: list_storage_remove_def wf_storage_def case_prod_beta split: option.splits)

subsection \<open>Insertion and removal as updates of the stored values\<close>

lemma stored_at_empty: "stored_at [] c = None"
proof (cases c)
  case Nil
  then show ?thesis by simp
next
  case (Cons k ks)
  then show ?thesis by (cases ks) auto
qed

lemma length_Suc_Suc: "length cs = Suc (Suc d) \<Longrightarrow> \<exists>k ks. cs = k # ks \<and> ks \<noteq> [] \<and> length ks = Suc d"
  by (cases cs) auto

lemma length_one: "length cs = Suc 0 \<Longrightarrow> \<exists>k. cs = [k]"
  by (cases cs) auto

lemma insert_node:
  assumes "wf_list (Suc d) l"
  shows "\<exists>sub. fst (list_insert l False k (Sub list_create)) = (k, Sub sub) \<and> wf_list d sub \<and>
           (case list_find l k of None \<Rightarrow> sub = [] | Some n \<Rightarrow> n = (k, Sub sub))"
proof (cases "list_find l k")
  case None
  with assms show ?thesis
    by (simp add: list_insert_keep wf_list_iff list_create_def)
next
  case (Some n)
  from wf_find_Sub[OF assms Some] obtain sub where "n = (k, Sub sub)" "wf_list d sub" by auto
  with Some assms show ?thesis
    by (simp add: list_insert_keep wf_list_iff)
qed

lemma wf_tree_insert:
  "wf_list d l \<Longrightarrow> length cs = Suc d \<Longrightarrow> wf_list d (tree_insert l cs v)"
proof (induction d arbitrary: l cs)
  case 0
  then obtain k where "cs = [k]" using length_one by blast
  with 0 show ?case by (simp add: wf_list_insert)
next
  case (Suc d)
  from length_Suc_Suc[OF Suc.prems(2)] obtain k ks where
    cs: "cs = k # ks" "ks \<noteq> []" "length ks = Suc d" by blast
  from insert_node[OF Suc.prems(1), of k] obtain sub where
    n: "fst (list_insert l False k (Sub list_create)) = (k, Sub sub)" and w: "wf_list d sub"
    by blast
  have "wf_val (Suc d) (Sub list_create)" by (simp add: list_create_def)
  from wf_list_insert[OF Suc.prems(1) this]
  have "wf_list (Suc d) (snd (list_insert l False k (Sub list_create)))" .
  from wf_list_put_one[OF this Suc.IH[OF w cs(3)]] n cs show ?case
    by (simp add: tree_insert_Cons case_prod_beta)
qed

lemma stored_tree_insert:
  "wf_list d l \<Longrightarrow> length cs = Suc d \<Longrightarrow> length c = Suc d \<Longrightarrow>
     stored_at (tree_insert l cs v) c = (if c = cs then Some (Scalar v) else stored_at l c)"
proof (induction d arbitrary: l cs c)
  case 0
  then obtain k k' where "cs = [k]" "c = [k']" using length_one by blast
  then show ?case
    by (cases "k' = k") (simp_all add: list_insert_find list_insert_replace list_insert_find_other)
next
  case (Suc d)
  from length_Suc_Suc[OF Suc.prems(2)] obtain k ks where
    cs: "cs = k # ks" "ks \<noteq> []" "length ks = Suc d" by blast
  from length_Suc_Suc[OF Suc.prems(3)] obtain k' c' where
    c: "c = k' # c'" "c' \<noteq> []" "length c' = Suc d" by blast
  let ?ins = "list_insert l False k (Sub list_create)"
  from insert_node[OF Suc.prems(1), of k] obtain sub where
    n: "fst ?ins = (k, Sub sub)" and w: "wf_list d sub" and
    old: "case list_find l k of None \<Rightarrow> sub = [] | Some n \<Rightarrow> n = (k, Sub sub)"
    by blast
  have ti: "tree_insert l cs v = list_put (snd ?ins) [k] (tree_insert sub ks v)"
    using n cs by (simp add: tree_insert_Cons case_prod_beta)
  have fnd: "list_find (snd ?ins) k = Some (k, Sub sub)"
    using list_insert_find[of l False k "Sub list_create"] n by simp
  show ?case
  proof (cases "k' = k")
    case True
    have "list_find (tree_insert l cs v) k = Some (k, Sub (tree_insert sub ks v))"
      unfolding ti using list_put_one_find[OF fnd, of sub] by simp
    then have "stored_at (tree_insert l cs v) c = stored_at (tree_insert sub ks v) c'"
      using c True by (simp add: stored_at_Cons)
    also have "\<dots> = (if c' = ks then Some (Scalar v) else stored_at sub c')"
      using w cs(3) c(3) by (rule Suc.IH)
    also have "stored_at sub c' = stored_at l c"
      using old c True by (auto simp: stored_at_Cons stored_at_empty split: option.splits)
    finally show ?thesis using c cs True by simp
  next
    case False
    have "list_find (tree_insert l cs v) k' = list_find (snd ?ins) k'"
      unfolding ti using False by (rule list_put_find_other)
    also have "\<dots> = list_find l k'"
      using False by (rule list_insert_find_other)
    finally show ?thesis using c cs False by (simp add: stored_at_Cons)
  qed
qed

lemma wf_tree_remove:
  "wf_list d l \<Longrightarrow> length cs = Suc d \<Longrightarrow> wf_list d (snd (tree_remove l cs))"
proof (induction d arbitrary: l cs)
  case 0
  then obtain k where "cs = [k]" using length_one by blast
  with 0 show ?case by (simp add: wf_list_remove)
next
  case (Suc d)
  from length_Suc_Suc[OF Suc.prems(2)] obtain k ks where
    cs: "cs = k # ks" "ks \<noteq> []" "length ks = Suc d" by blast
  show ?case
  proof (cases "list_find l k")
    case None
    with cs Suc.prems show ?thesis by (simp add: tree_remove_Cons)
  next
    case (Some n)
    from wf_find_Sub[OF Suc.prems(1) Some] obtain sub where
      n: "n = (k, Sub sub)" and w: "wf_list d sub" by auto
    from wf_list_put_one[OF Suc.prems(1) Suc.IH[OF w cs(3)]] Some n cs show ?thesis
      by (simp add: tree_remove_Cons case_prod_beta)
  qed
qed


lemma stored_tree_remove:
  "wf_list d l \<Longrightarrow> length cs = Suc d \<Longrightarrow> length c = Suc d \<Longrightarrow>
     stored_at (snd (tree_remove l cs)) c = (if c = cs then None else stored_at l c)"
proof (induction d arbitrary: l cs c)
  case 0
  then obtain k k' where kk: "cs = [k]" "c = [k']" using length_one by blast
  from 0 have "sorted_wrt (<) (map fst l)" by (simp add: wf_list_iff)
  with kk show ?case
    by (cases "k' = k") (simp_all add: list_remove_find_same list_remove_find_other)
next
  case (Suc d)
  from length_Suc_Suc[OF Suc.prems(2)] obtain k ks where
    cs: "cs = k # ks" "ks \<noteq> []" "length ks = Suc d" by blast
  from length_Suc_Suc[OF Suc.prems(3)] obtain k' c' where
    c: "c = k' # c'" "c' \<noteq> []" "length c' = Suc d" by blast
  show ?case
  proof (cases "list_find l k")
    case None
    with cs c show ?thesis
      by (auto simp: tree_remove_Cons stored_at_Cons)
  next
    case (Some n)
    from wf_find_Sub[OF Suc.prems(1) Some] obtain sub where
      n: "n = (k, Sub sub)" and w: "wf_list d sub" by auto
    have tr: "snd (tree_remove l cs) = list_put l [k] (snd (tree_remove sub ks))"
      using Some n cs by (simp add: tree_remove_Cons case_prod_beta)
    show ?thesis
    proof (cases "k' = k")
      case True
      have "list_find (snd (tree_remove l cs)) k = Some (k, Sub (snd (tree_remove sub ks)))"
        unfolding tr using list_put_one_find[OF Some, of sub] n by simp
      then have "stored_at (snd (tree_remove l cs)) c = stored_at (snd (tree_remove sub ks)) c'"
        using c True by (simp add: stored_at_Cons)
      also have "\<dots> = (if c' = ks then None else stored_at sub c')"
        using w cs(3) c(3) by (rule Suc.IH)
      also have "stored_at sub c' = stored_at l c"
        using Some n c True by (simp add: stored_at_Cons)
      finally show ?thesis using c cs True by simp
    next
      case False
      have "list_find (snd (tree_remove l cs)) k' = list_find l k'"
        unfolding tr using False by (rule list_put_find_other)
      with c cs False show ?thesis by (simp add: stored_at_Cons)
    qed
  qed
qed

lemma tree_remove_absent:
  "wf_list d l \<Longrightarrow> length cs = Suc d \<Longrightarrow> stored_at l cs = None \<Longrightarrow> tree_remove l cs = (None, l)"
proof (induction d arbitrary: l cs)
  case 0
  then obtain k where "cs = [k]" using length_one by blast
  with 0 show ?case by (simp add: list_remove_absent)
next
  case (Suc d)
  from length_Suc_Suc[OF Suc.prems(2)] obtain k ks where
    cs: "cs = k # ks" "ks \<noteq> []" "length ks = Suc d" by blast
  show ?case
  proof (cases "list_find l k")
    case None
    with cs show ?thesis by (simp add: tree_remove_Cons)
  next
    case (Some n)
    from wf_find_Sub[OF Suc.prems(1) Some] obtain sub where
      n: "n = (k, Sub sub)" and w: "wf_list d sub" by auto
    from Suc.prems(3) Some n cs have "stored_at sub ks = None"
      by (simp add: stored_at_Cons)
    from Suc.IH[OF w cs(3) this] have "tree_remove sub ks = (None, sub)" .
    moreover have "list_put l [k] sub = l"
      using Some n by (intro list_put_same) simp
    ultimately show ?thesis using Some n cs by (simp add: tree_remove_Cons)
  qed
qed


lemma wf_storage_insert:
  assumes "wf_storage s" "length c = rank s"
  shows "wf_storage (s\<lparr>rows := tree_insert (rows s) c v\<rparr>)"
  using assms wf_tree_insert[of "rank s - 1" "rows s" c v]
  by (simp add: wf_storage_def)

lemma wf_storage_remove:
  assumes "wf_storage s" "length c = rank s"
  shows "wf_storage (s\<lparr>rows := snd (tree_remove (rows s) c)\<rparr>)"
  using assms wf_tree_remove[of "rank s - 1" "rows s" c]
  by (simp add: wf_storage_def)

text \<open>C5: on a well-formed storage and a coordinate tuple of length rank, insertion
  succeeds and returns the value it stored, and a lookup of the same coordinates in
  the storage it leaves returns that value.\<close>

theorem list_storage_insert_then_ref:
  assumes "wf_storage s" "length (coords sl) = rank s"
  shows "\<exists>s'. list_storage_insert s sl v = (Inr (Scalar v), s') \<and>
               list_storage_ref s' sl = (Inr (Scalar v), s')"
proof -
  let ?s' = "s\<lparr>rows := tree_insert (rows s) (coords sl) v\<rparr>"
  have i: "list_storage_insert s sl v = (Inr (Scalar v), ?s')"
    using assms by (rule list_storage_insert_tree)
  have w: "wf_storage ?s'" using assms by (rule wf_storage_insert)
  from assms have wl: "wf_list (rank s - 1) (rows s)" "length (coords sl) = Suc (rank s - 1)"
    by (simp_all add: wf_storage_def)
  have "stored_at (rows ?s') (coords sl) = Some (Scalar v)"
    using stored_tree_insert[OF wl(1) wl(2) wl(2), of v] by simp
  with list_storage_ref_stored[OF w] assms(2)
  have "list_storage_ref ?s' sl = (Inr (Scalar v), ?s')" by simp
  with i show ?thesis by blast
qed

theorem list_storage_insert_then_ref_witness:
  "wf_storage \<lparr>dtype = 0, rank = 2, shape = [3, 3], default_val = 0 :: int,
       rows = [(0, Sub [(0, Scalar 5)])]\<rparr> \<and>
   length (coords \<lparr>coords = [2, 2]\<rparr>) = 2 \<and>
   (\<exists>s'. list_storage_insert
            \<lparr>dtype = 0, rank = 2, shape = [3, 3], default_val = 0 :: int,
               rows = [(0, Sub [(0, Scalar 5)])]\<rparr> \<lparr>coords = [2, 2]\<rparr> 7 = (Inr (Scalar 7), s') \<and>
         list_storage_ref s' \<lparr>coords = [2, 2]\<rparr> = (Inr (Scalar 7), s'))"
  using list_storage_insert_then_ref
          [of "\<lparr>dtype = 0, rank = 2, shape = [3, 3], default_val = 0 :: int,
                 rows = [(0, Sub [(0, Scalar 5)])]\<rparr>" "\<lparr>coords = [2, 2]\<rparr>" 7]
  by (simp add: wf_storage_def wf_list_def)



text \<open>Removal of coordinates without a stored value. When the nodes above the leaf
  exist and only the leaf node is missing, the call returns \<^verbatim>\<open>NULL\<close> and leaves the
  storage as it was.\<close>

lemma list_storage_remove_leaf_absent:
  assumes "wf_storage s" "length (coords sl) = rank s"
    "stored_at (rows s) (coords sl) = None" "list_at (rows s) (butlast (coords sl)) = Some leaf"
  shows "list_storage_remove s sl = (Inr None, s)"
proof -
  from assms have wl: "wf_list (rank s - 1) (rows s)" "length (coords sl) = Suc (rank s - 1)"
    by (simp_all add: wf_storage_def)
  from tree_remove_absent[OF wl assms(3)] list_storage_remove_tree[OF assms(1,2)] assms(4)
  show ?thesis by simp
qed

text \<open>C6 asks that removal at coordinates without a stored value returns "not found"
  and changes nothing, also when a node is missing above the leaf. There the first
  loop of \<^verbatim>\<open>list_storage_remove\<close> runs \<^verbatim>\<open>free(stack)\<close> on the array it took from the
  stack frame with \<^verbatim>\<open>ALLOCA_N\<close>, which is undefined, before it gets to \<^verbatim>\<open>return NULL\<close>.
  A rank-2 storage that holds 5 at (1,1) has no row 0; removing (0,0) from it takes
  that branch in the first iteration.\<close>

theorem list_storage_remove_missing_row_undefined:
  "wf_storage \<lparr>dtype = 0, rank = 2, shape = [3, 3], default_val = 0 :: int,
       rows = [(1, Sub [(1, Scalar 5)])]\<rparr> \<and>
   stored_at [(1, Sub [(1, Scalar (5 :: int))])] [0, 0] = None \<and>
   list_storage_remove
      \<lparr>dtype = 0, rank = 2, shape = [3, 3], default_val = 0 :: int,
         rows = [(1, Sub [(1, Scalar 5)])]\<rparr> \<lparr>coords = [0, 0]\<rparr>
     = (Inl Undefined,
        \<lparr>dtype = 0, rank = 2, shape = [3, 3], default_val = 0 :: int,
           rows = [(1, Sub [(1, Scalar 5)])]\<rparr>)"
  by (simp add: list_storage_remove_def coord_at_def remove_loop.simps
        wf_storage_def wf_list_def)

subsection \<open>Histories of calls\<close>

lemma apply_call_tree:
  assumes "wf_storage s" "length (call_coords cl) = rank s" "apply_call s cl = Inr s'"
  shows "s' =
     (case cl of
        Insert c v \<Rightarrow> s\<lparr>rows := tree_insert (rows s) c v\<rparr>
      | Remove c \<Rightarrow> s\<lparr>rows := snd (tree_remove (rows s) c)\<rparr>)"
proof (cases cl)
  case (Insert c v)
  with assms list_storage_insert_tree[of s "\<lparr>coords = c\<rparr>" v] show ?thesis by simp
next
  case (Remove c)
  with assms list_storage_remove_tree[of s "\<lparr>coords = c\<rparr>"] show ?thesis
    by (simp split: option.splits)
qed

lemma apply_call_keeps_absent:
  assumes w: "wf_storage s" and lc: "length (call_coords cl) = rank s"
    and ni: "\<not> inserts_at c cl" and l: "length c = rank s"
    and ab: "stored_at (rows s) c = None" and ok: "apply_call s cl = Inr s'"
  shows "wf_storage s' \<and> rank s' = rank s \<and> default_val s' = default_val s \<and>
         stored_at (rows s') c = None"
proof -
  from w have wl: "wf_list (rank s - 1) (rows s)" and r: "rank s = Suc (rank s - 1)"
    by (simp_all add: wf_storage_def)
  note tr = apply_call_tree[OF w \<open>length (call_coords cl) = rank s\<close> ok]
  show ?thesis
  proof (cases cl)
    case (Insert c' v)
    with lc ni have c': "length c' = Suc (rank s - 1)" "c \<noteq> c'" using r by auto
    from l r have lc: "length c = Suc (rank s - 1)" by simp
    have "stored_at (tree_insert (rows s) c' v) c = stored_at (rows s) c"
      using stored_tree_insert[OF wl c'(1) lc, of v] c'(2) by simp
    moreover have "wf_storage (s\<lparr>rows := tree_insert (rows s) c' v\<rparr>)"
      using w c'(1) r by (intro wf_storage_insert) simp_all
    ultimately show ?thesis
      using tr Insert ab by simp
  next
    case (Remove c')
    with \<open>length (call_coords cl) = rank s\<close> have c': "length c' = Suc (rank s - 1)"
      using r by auto
    from l r have lc: "length c = Suc (rank s - 1)" by simp
    have "stored_at (snd (tree_remove (rows s) c')) c = None"
      using stored_tree_remove[OF wl c' lc] ab by simp
    moreover have "wf_storage (s\<lparr>rows := snd (tree_remove (rows s) c')\<rparr>)"
      using w c' r by (intro wf_storage_remove) simp_all
    ultimately show ?thesis
      using tr Remove by simp
  qed
qed

lemma calls_keep_absent:
  "wf_storage s \<Longrightarrow> list_all (\<lambda>cl. length (call_coords cl) = rank s) calls \<Longrightarrow>
   \<not> list_ex (inserts_at c) calls \<Longrightarrow> length c = rank s \<Longrightarrow> stored_at (rows s) c = None \<Longrightarrow>
   run_calls s calls = Inr s' \<Longrightarrow>
     wf_storage s' \<and> rank s' = rank s \<and> default_val s' = default_val s \<and>
     stored_at (rows s') c = None"
proof (induction calls arbitrary: s)
  case Nil
  then show ?case by simp
next
  case (Cons cl calls)
  from Cons.prems have a: "length (call_coords cl) = rank s" "\<not> inserts_at c cl" by simp_all
  from Cons.prems(6) obtain s1 where
    s1: "apply_call s cl = Inr s1" "run_calls s1 calls = Inr s'"
    by (auto split: sum.splits)
  from apply_call_keeps_absent[OF Cons.prems(1) a Cons.prems(4,5) s1(1)]
  have k: "wf_storage s1" "rank s1 = rank s" "default_val s1 = default_val s"
    "stored_at (rows s1) c = None" by simp_all
  from Cons.prems k(2) have
    "list_all (\<lambda>cl'. length (call_coords cl') = rank s1) calls"
    "\<not> list_ex (inserts_at c) calls" "length c = rank s1" by simp_all
  from Cons.IH[OF k(1) this k(4) s1(2)] k(2,3) show ?case by simp
qed

text \<open>C4: a lookup returns the default scalar and leaves the storage as it was, (1) on
  every well-formed storage at coordinates whose node chain is missing at some level or
  at the leaf, and (2) on every storage reached from a newly created one by insertions
  and removals that returned, at coordinates at which none of these calls inserted.\<close>

theorem list_storage_ref_default:
  "(wf_storage s \<and> length (coords sl) = rank s \<and> stored_at (rows s) (coords sl) = None \<longrightarrow>
      list_storage_ref s sl = (Inr (Scalar (default_val s)), s)) \<and>
   (1 \<le> rnk \<and> length (coords sl) = rnk \<and>
    list_all (\<lambda>cl. length (call_coords cl) = rnk) calls \<and>
    \<not> list_ex (inserts_at (coords sl)) calls \<and>
    run_calls (list_storage_create dt shp rnk d) calls = Inr s' \<longrightarrow>
      list_storage_ref s' sl = (Inr (Scalar d), s'))"
proof (intro conjI impI)
  assume "wf_storage s \<and> length (coords sl) = rank s \<and> stored_at (rows s) (coords sl) = None"
  then show "list_storage_ref s sl = (Inr (Scalar (default_val s)), s)"
    using list_storage_ref_stored[of s sl] by simp
next
  let ?s0 = "list_storage_create dt shp rnk d"
  assume a: "1 \<le> rnk \<and> length (coords sl) = rnk \<and>
    list_all (\<lambda>cl. length (call_coords cl) = rnk) calls \<and>
    \<not> list_ex (inserts_at (coords sl)) calls \<and>
    run_calls (list_storage_create dt shp rnk d) calls = Inr s'"
  then have w0: "wf_storage ?s0"
    by (simp add: wf_storage_def wf_list_def list_storage_create_def list_create_def)
  have r0: "rank ?s0 = rnk" "default_val ?s0 = d" "rows ?s0 = []"
    by (simp_all add: list_storage_create_def list_create_def)
  have ab: "stored_at (rows ?s0) (coords sl) = None"
    by (simp add: r0 stored_at_empty)
  from a r0 have "list_all (\<lambda>cl. length (call_coords cl) = rank ?s0) calls"
    "\<not> list_ex (inserts_at (coords sl)) calls" "length (coords sl) = rank ?s0"
    "run_calls ?s0 calls = Inr s'" by simp_all
  from calls_keep_absent[OF w0 this(1,2,3) ab this(4)] r0
  have k: "wf_storage s'" "rank s' = rnk" "default_val s' = d"
    "stored_at (rows s') (coords sl) = None" by simp_all
  from list_storage_ref_stored[OF k(1)] k(2,3,4) a
  show "list_storage_ref s' sl = (Inr (Scalar d), s')"
    by simp
qed

theorem list_storage_ref_default_witness:
  "(wf_storage \<lparr>dtype = 0, rank = 2, shape = [3, 3], default_val = 0 :: int,
        rows = [(0, Sub [(0, Scalar 5)]), (2, Sub [(2, Scalar 7)])]\<rparr> \<and>
    length (coords \<lparr>coords = [1, 1]\<rparr>) = 2 \<and>
    stored_at [(0, Sub [(0, Scalar (5 :: int))]), (2, Sub [(2, Scalar 7)])] [1, 1] = None \<and>
    list_storage_ref
       \<lparr>dtype = 0, rank = 2, shape = [3, 3], default_val = 0 :: int,
          rows = [(0, Sub [(0, Scalar 5)]), (2, Sub [(2, Scalar 7)])]\<rparr> \<lparr>coords = [1, 1]\<rparr>
      = (Inr (Scalar 0),
         \<lparr>dtype = 0, rank = 2, shape = [3, 3], default_val = 0 :: int,
            rows = [(0, Sub [(0, Scalar 5)]), (2, Sub [(2, Scalar 7)])]\<rparr>)) \<and>
   ((1 :: nat) \<le> 2 \<and> length (coords \<lparr>coords = [0, 1]\<rparr>) = 2 \<and>
    list_all (\<lambda>cl. length (call_coords cl) = 2)
       [Insert [0, 0] (5 :: int), Remove [0, 0], Insert [1, 1] 3] \<and>
    \<not> list_ex (inserts_at [0, 1]) [Insert [0, 0] (5 :: int), Remove [0, 0], Insert [1, 1] 3] \<and>
    run_calls (list_storage_create 0 [3, 3] 2 0)
       [Insert [0, 0] (5 :: int), Remove [0, 0], Insert [1, 1] 3]
      = Inr \<lparr>dtype = 0, rank = 2, shape = [3, 3], default_val = 0 :: int,
              rows = [(0, Sub []), (1, Sub [(1, Scalar 3)])]\<rparr> \<and>
    list_storage_ref
       \<lparr>dtype = 0, rank = 2, shape = [3, 3], default_val = 0 :: int,
          rows = [(0, Sub []), (1, Sub [(1, Scalar 3)])]\<rparr> \<lparr>coords = [0, 1]\<rparr>
      = (Inr (Scalar 0),
         \<lparr>dtype = 0, rank = 2, shape = [3, 3], default_val = 0 :: int,
            rows = [(0, Sub []), (1, Sub [(1, Scalar 3)])]\<rparr>))"
  using list_storage_ref_default
          [where s = "\<lparr>dtype = 0, rank = 2, shape = [3, 3], default_val = 0 :: int,
                 rows = [(0, Sub [(0, Scalar 5)]), (2, Sub [(2, Scalar 7)])]\<rparr>"
             and sl = "\<lparr>coords = [1, 1]\<rparr>", THEN conjunct1]
        list_storage_ref_default
          [where sl = "\<lparr>coords = [0, 1]\<rparr>" and rnk = 2
             and calls = "[Insert [0, 0] (5 :: int), Remove [0, 0], Insert [1, 1] 3]"
             and dt = 0 and shp = "[3, 3]" and d = 0
             and s' = "\<lparr>dtype = 0, rank = 2, shape = [3, 3], default_val = 0 :: int,
                 rows = [(0, Sub []), (1, Sub [(1, Scalar 3)])]\<rparr>", THEN conjunct2]
  by (simp add: wf_storage_def wf_list_def list_storage_create_def list_create_def
        list_storage_insert_def list_storage_remove_def coord_at_def
        insert_loop.simps remove_loop.simps prune_loop.simps)

subsection \<open>Equality with an empty side\<close>









subsection \<open>Lemmas for the copy in memory\<close>








lemma alloc_fst: "fst (alloc m ob) = brk m"
  and alloc_brk: "brk (snd (alloc m ob)) = Suc (brk m)"
  and alloc_cells: "cells (snd (alloc m ob)) = (cells m)(brk m \<mapsto> ob)"
  by (simp_all add: alloc_def)











end
